theory Spec2Isabelle
  imports Complex_Main "HOL-Library.AList"
begin

section \<open>Python values handled by the InfluxDB plugin\<close>

text \<open>
  The plugin (\<^verbatim>\<open>src/influxdb/main.py\<close>) is Python 2 code (\<^verbatim>\<open>basestring\<close>,
  \<^verbatim>\<open>iteritems\<close>).  A metric's value and its tag attributes are dynamically typed; the
  model keeps the run-time type as a constructor:
  \<^item> \<open>PInt\<close> is Python 2's \<^verbatim>\<open>int\<close>, \<open>PLong\<close> its \<^verbatim>\<open>long\<close> (what an integer literal or a
    decoded JSON number beyond \<^verbatim>\<open>sys.maxint\<close> is); \<^verbatim>\<open>long\<close> is not a subclass of \<^verbatim>\<open>int\<close>,
    \<^verbatim>\<open>bool\<close> is;
  \<^item> \<open>PFloat\<close> is a finite float, given by its exact value as a rational and by the
    text \<^verbatim>\<open>str()\<close> prints for it, which is the run-time's business (NaN and the
    infinities are outside the model);
  \<^item> \<open>PStr\<close> is a byte string (\<^verbatim>\<open>str\<close>); \<^verbatim>\<open>unicode\<close> objects are outside the model.
\<close>

datatype pyval = PNone | PBool bool | PInt int | PLong int | PFloat rat string | PStr string

datatype exn = KeyError string | OverflowError | IndexError

text \<open>\<^verbatim>\<open>isinstance(v, basestring)\<close>, \<^verbatim>\<open>isinstance(v, bool)\<close>, \<^verbatim>\<open>isinstance(v, int)\<close>.\<close>

fun isinstance_basestring :: "pyval \<Rightarrow> bool" where
  "isinstance_basestring (PStr s) = True"
| "isinstance_basestring v = False"

fun isinstance_bool :: "pyval \<Rightarrow> bool" where
  "isinstance_bool (PBool b) = True"
| "isinstance_bool v = False"

fun isinstance_int :: "pyval \<Rightarrow> bool" where
  "isinstance_int (PInt n) = True"
| "isinstance_int (PBool b) = True"
| "isinstance_int v = False"

subsection \<open>Decimal digits and \<^verbatim>\<open>str.format\<close>\<close>

definition digit_char :: "int \<Rightarrow> char" where
  "digit_char d = ''0123456789'' ! nat d"

function digits10 :: "int \<Rightarrow> string" where
  "digits10 n = (if n < 10 then [digit_char n] else digits10 (n div 10) @ [digit_char (n mod 10)])"
  by pat_completeness auto
termination
  by (relation "measure nat") auto

declare digits10.simps [simp del]

definition show_int :: "int \<Rightarrow> string" where
  "show_int n = (if n < 0 then CHR ''-'' # digits10 (- n) else digits10 n)"

text \<open>\<^verbatim>\<open>'{0}'.format(v)\<close>, which is \<^verbatim>\<open>str(v)\<close> for the values of the model.\<close>

fun py_format :: "pyval \<Rightarrow> string" where
  "py_format PNone = ''None''"
| "py_format (PBool b) = (if b then ''True'' else ''False'')"
| "py_format (PInt n) = show_int n"
| "py_format (PLong n) = show_int n"
| "py_format (PFloat r s) = s"
| "py_format (PStr s) = s"

text \<open>\<^verbatim>\<open>sep.join(xs)\<close>.\<close>

fun join :: "string \<Rightarrow> string list \<Rightarrow> string" where
  "join sep [] = []"
| "join sep [x] = x"
| "join sep (x # y # ys) = x @ sep @ join sep (y # ys)"

text \<open>
  \<^verbatim>\<open>'{:.0f}'.format(n)\<close> for an integer \<open>n\<close>: the integer is converted with \<^verbatim>\<open>float()\<close>
  (to the nearest double, ties to even; \<^verbatim>\<open>OverflowError\<close> beyond the doubles) and the
  double, which is a whole number, is printed with all its digits.
\<close>

function bit_length :: "int \<Rightarrow> nat" where
  "bit_length n = (if n \<le> 0 then 0 else Suc (bit_length (n div 2)))"
  by pat_completeness auto
termination
  by (relation "measure nat") auto

declare bit_length.simps [simp del]

definition round_double :: "int \<Rightarrow> int" where
  "round_double n =
     (let b = bit_length n in
      if b \<le> 53 then n
      else let sh = b - 53;
               q = n div 2 ^ sh;
               r = n mod 2 ^ sh;
               half = 2 ^ (sh - 1);
               q' = (if r > half \<or> (r = half \<and> odd q) then q + 1 else q)
           in q' * 2 ^ sh)"

definition float_of_int :: "int \<Rightarrow> exn + int" where
  "float_of_int n =
     (let a = round_double \<bar>n\<bar> in
      if a \<ge> 2 ^ 1024 then Inl OverflowError
      else Inr (if n < 0 then - a else a))"

definition format_0f :: "int \<Rightarrow> exn + string" where
  "format_0f n = (case float_of_int n of Inl e \<Rightarrow> Inl e | Inr x \<Rightarrow> Inr (show_int x))"

subsection \<open>String helpers\<close>

text \<open>\<^verbatim>\<open>s.lower()\<close> on a byte string.\<close>

definition lower_char :: "char \<Rightarrow> char" where
  "lower_char c =
     (case map_of (zip ''ABCDEFGHIJKLMNOPQRSTUVWXYZ'' ''abcdefghijklmnopqrstuvwxyz'') c of
        Some d \<Rightarrow> d | None \<Rightarrow> c)"

definition lower :: "string \<Rightarrow> string" where
  "lower s = map lower_char s"

text \<open>\<^verbatim>\<open>s.replace(' ', '\ ')\<close>: every space becomes a backslash and a space.\<close>

definition replace_space :: "string \<Rightarrow> string" where
  "replace_space s = concat (map (\<lambda>c. if c = CHR '' '' then [CHR 0x5C, CHR '' ''] else [c]) s)"

section \<open>The value encoder (lines 132 to 137)\<close>

text \<open>
  Three \<^verbatim>\<open>if\<close> statements in sequence, each testing the value the previous one left:
  \<^verbatim>\<open>
  if isinstance(value, basestring): value = '"{0}"'.format(value)
  if isinstance(value, bool):       value = str(value)
  if isinstance(value, int):        value = '{0}i'.format(value)
  \<close>
\<close>

definition encode_value :: "pyval \<Rightarrow> pyval" where
  "encode_value value =
     (let v1 = (if isinstance_basestring value
                then PStr ([CHR 0x22] @ py_format value @ [CHR 0x22]) else value);
          v2 = (if isinstance_bool v1 then PStr (py_format v1) else v1);
          v3 = (if isinstance_int v2 then PStr (py_format v2 @ ''i'') else v2)
      in v3)"

section \<open>The entry encoder\<close>

text \<open>
  A Python dictionary is an association list with distinct keys, in the order
  \<^verbatim>\<open>iteritems()\<close> yields its items; a store keeps the place of a key that is present and
  puts a new key last (\<open>AList.update\<close>), the insertion order the specification speaks of.
  (A Python 2 dictionary iterates in the order of its hash table; the order matters
  only for the sequence of the tags and of the fields inside a rendered line, and no
  property below depends on it.)
  The third argument of \<^verbatim>\<open>_build_entry\<close> is a dictionary of fields or any other value.
\<close>

type_synonym dict = "(string \<times> pyval) list"

datatype entry_value = Fields dict | Scalar pyval

definition format_item :: "string \<times> pyval \<Rightarrow> string" where
  "format_item kv = fst kv @ ''='' @ py_format (snd kv)"

definition build_entry ::
  "string \<Rightarrow> dict \<Rightarrow> entry_value \<Rightarrow> int option \<Rightarrow> exn + string" where
  "build_entry key tags value timestamp =
     (let values = (case value of
                      Fields d \<Rightarrow> join '','' (map format_item d)
                    | Scalar v \<Rightarrow> ''value='' @ py_format v)
      in case (case timestamp of None \<Rightarrow> Inr ''''
               | Some t \<Rightarrow> (case format_0f t of Inl e \<Rightarrow> Inl e | Inr s \<Rightarrow> Inr ('' '' @ s))) of
           Inl e \<Rightarrow> Inl e
         | Inr ts \<Rightarrow> Inr (key @ '','' @ join '','' (map format_item tags) @ '' '' @ values @ ts))"

section \<open>Metrics, definitions and the plugin's state\<close>

text \<open>
  A metric is the dictionary the host passes to \<^verbatim>\<open>_receive_metric_data\<close>: the five keys
  the code reads by name, typed as the docstring's example has them, and the remaining
  attributes.  \<^verbatim>\<open>metric[tag]\<close> reads the same dictionary, so a tag called \<^verbatim>\<open>type\<close> or
  \<^verbatim>\<open>source\<close> resolves to those entries; a missing key raises \<^verbatim>\<open>KeyError\<close>.
\<close>

record metric =
  m_source :: string
  m_type :: string
  m_metric :: string
  m_timestamp :: int
  m_value :: pyval
  m_extra :: dict

definition metric_getitem :: "metric \<Rightarrow> string \<Rightarrow> exn + pyval" where
  "metric_getitem m k =
     (if k = ''source'' then Inr (PStr (m_source m))
      else if k = ''type'' then Inr (PStr (m_type m))
      else if k = ''metric'' then Inr (PStr (m_metric m))
      else if k = ''timestamp'' then Inr (PInt (m_timestamp m))
      else if k = ''value'' then Inr (m_value m)
      else case map_of (m_extra m) k of None \<Rightarrow> Inl (KeyError k) | Some v \<Rightarrow> Inr v)"

text \<open>A definition, of which the code reads \<^verbatim>\<open>definition['tags']\<close> only.\<close>

record metric_definition =
  def_tags :: "string list"

type_synonym definitions = "(string \<times> (string \<times> (string \<times> metric_definition) list) list) list"

text \<open>\<^verbatim>\<open>self._definitions.get(source, {}).get(metric_type, {}).get(name)\<close>.\<close>

definition lookup_definition ::
  "definitions \<Rightarrow> string \<Rightarrow> string \<Rightarrow> string \<Rightarrow> metric_definition option" where
  "lookup_definition defs source metric_type name =
     (case map_of defs source of None \<Rightarrow> None
      | Some by_type \<Rightarrow> (case map_of by_type metric_type of None \<Rightarrow> None
                         | Some by_name \<Rightarrow> map_of by_name name))"

text \<open>A pending group is the three-element list \<^verbatim>\<open>[timestamp, tags, fields]\<close>.\<close>

record group =
  grp_timestamp :: int
  grp_tags :: dict
  grp_fields :: dict

text \<open>
  The state of the plugin the claims are about.  \<^verbatim>\<open>_send_queue\<close> is a deque, written
  as a list whose head is the deque's left end; the dictionaries of \<^verbatim>\<open>_definitions\<close> and
  \<^verbatim>\<open>_pending_metrics\<close> are association lists as well.
\<close>

record influxdb =
  enabled :: bool
  definitions :: "definitions option"
  pending_metrics :: "(string \<times> (string \<times> group list) list) list"
  send_queue :: "string list"
  batch_size :: int

text \<open>
  The state \<^verbatim>\<open>__init__\<close> and \<^verbatim>\<open>_read_config\<close> set up from the configured url, database
  and batch size, and the state once \<^verbatim>\<open>_load_definitions\<close> has stored the definitions.
\<close>

definition init :: "string \<Rightarrow> string \<Rightarrow> int \<Rightarrow> influxdb" where
  "init url database bs =
     \<lparr>enabled = (url \<noteq> '''' \<and> database \<noteq> ''''), definitions = None,
      pending_metrics = [], send_queue = [], batch_size = bs\<rparr>"

definition load_definitions :: "definitions \<Rightarrow> influxdb \<Rightarrow> influxdb" where
  "load_definitions defs self =
     (case definitions self of None \<Rightarrow> self\<lparr>definitions := Some defs\<rparr> | Some d \<Rightarrow> self)"

definition appendleft :: "'a \<Rightarrow> 'a list \<Rightarrow> 'a list" where
  "appendleft x q = x # q"

definition pop :: "'a list \<Rightarrow> exn + ('a \<times> 'a list)" where
  "pop q = (if q = [] then Inl IndexError else Inr (last q, butlast q))"

section \<open>Ingestion: \<^verbatim>\<open>_receive_metric_data\<close>\<close>

subsection \<open>Python's equality on values\<close>

text \<open>
  \<^verbatim>\<open>a != b\<close> on the values of the model: numbers (booleans included) compare by value,
  strings by content, \<^verbatim>\<open>None\<close> equals only itself.
\<close>

fun num_val :: "pyval \<Rightarrow> rat option" where
  "num_val (PBool b) = Some (if b then 1 else 0)"
| "num_val (PInt n) = Some (of_int n)"
| "num_val (PLong n) = Some (of_int n)"
| "num_val (PFloat r s) = Some r"
| "num_val v = None"

definition py_eq :: "pyval \<Rightarrow> pyval \<Rightarrow> bool" where
  "py_eq a b =
     (case (num_val a, num_val b) of
        (Some x, Some y) \<Rightarrow> x = y
      | (None, None) \<Rightarrow> a = b
      | _ \<Rightarrow> False)"

definition py_ne :: "pyval \<Rightarrow> pyval \<Rightarrow> bool" where
  "py_ne a b = (\<not> py_eq a b)"

text \<open>\<^verbatim>\<open>d[k]\<close> and \<^verbatim>\<open>d.get(k)\<close>.\<close>

definition dict_getitem :: "dict \<Rightarrow> string \<Rightarrow> exn + pyval" where
  "dict_getitem d k = (case map_of d k of None \<Rightarrow> Inl (KeyError k) | Some v \<Rightarrow> Inr v)"

definition dict_get :: "dict \<Rightarrow> string \<Rightarrow> pyval" where
  "dict_get d k = (case map_of d k of None \<Rightarrow> PNone | Some v \<Rightarrow> v)"

subsection \<open>The tags of a metric (lines 138 to 143)\<close>

fun build_tags :: "metric \<Rightarrow> string list \<Rightarrow> dict \<Rightarrow> exn + dict" where
  "build_tags m [] tags = Inr tags"
| "build_tags m (tag # rest) tags =
     (case metric_getitem m tag of
        Inl e \<Rightarrow> Inl e
      | Inr v \<Rightarrow>
          build_tags m rest
            (AList.update tag
               (case v of PStr s \<Rightarrow> PStr (replace_space s) | _ \<Rightarrow> v) tags))"

subsection \<open>The scan of the pending groups (lines 146 to 161)\<close>

text \<open>
  The inner loop: \<^verbatim>\<open>this_one\<close> stays true when no tag of the definition differs between
  the metric's tags and the pending group's.
\<close>

fun this_one :: "string list \<Rightarrow> dict \<Rightarrow> dict \<Rightarrow> exn + bool" where
  "this_one [] tags ptags = Inr True"
| "this_one (tag # rest) tags ptags =
     (case dict_getitem tags tag of
        Inl e \<Rightarrow> Inl e
      | Inr v \<Rightarrow> if py_ne v (dict_get ptags tag) then Inr False
                 else this_one rest tags ptags)"

text \<open>
  The outer loop runs over a copy of the bucket's list and stops at the first group for
  which \<^verbatim>\<open>this_one\<close> holds.  It returns \<^verbatim>\<open>found\<close>, the entry pushed on the queue if any,
  and the bucket's list as the loop leaves it: the group merged into is the list's own
  element (the store goes through the alias \<^verbatim>\<open>pending\<close>), and \<^verbatim>\<open>entries.remove(pending)\<close>
  takes out the group under inspection, since an equal group before it would have
  stopped the loop earlier.
\<close>

fun scan_pending ::
  "string \<Rightarrow> string list \<Rightarrow> dict \<Rightarrow> int \<Rightarrow> string \<Rightarrow> pyval \<Rightarrow>
     group list \<Rightarrow> exn + (bool \<times> string option \<times> group list)" where
  "scan_pending metric_type dtags tags timestamp name value [] = Inr (False, None, [])"
| "scan_pending metric_type dtags tags timestamp name value (pending # rest) =
     (case this_one dtags tags (grp_tags pending) of
        Inl e \<Rightarrow> Inl e
      | Inr True \<Rightarrow>
          if grp_timestamp pending = timestamp
          then Inr (True, None,
                    pending\<lparr>grp_fields := AList.update name value (grp_fields pending)\<rparr> # rest)
          else (case build_entry metric_type (grp_tags pending)
                       (Fields (grp_fields pending)) (Some (grp_timestamp pending)) of
                  Inl e \<Rightarrow> Inl e
                | Inr data \<Rightarrow> Inr (False, Some data, rest))
      | Inr False \<Rightarrow>
          (case scan_pending metric_type dtags tags timestamp name value rest of
             Inl e \<Rightarrow> Inl e
           | Inr (found, pushed, entries) \<Rightarrow> Inr (found, pushed, pending # entries)))"

subsection \<open>The body of the \<^verbatim>\<open>try\<close> block and its handler\<close>

text \<open>
  The bucket \<^verbatim>\<open>self._pending_metrics.setdefault(source, {}).setdefault(metric_type, [])\<close>:
  both dictionaries get the key if they lack it.
\<close>

definition by_type_of :: "influxdb \<Rightarrow> string \<Rightarrow> (string \<times> group list) list" where
  "by_type_of self source =
     (case map_of (pending_metrics self) source of None \<Rightarrow> [] | Some t \<Rightarrow> t)"

definition bucket :: "influxdb \<Rightarrow> string \<Rightarrow> string \<Rightarrow> group list" where
  "bucket self source metric_type =
     (case map_of (by_type_of self source) metric_type of None \<Rightarrow> [] | Some es \<Rightarrow> es)"

definition set_bucket :: "influxdb \<Rightarrow> string \<Rightarrow> string \<Rightarrow> group list \<Rightarrow> influxdb" where
  "set_bucket self source metric_type entries =
     self\<lparr>pending_metrics :=
            AList.update source (AList.update metric_type entries (by_type_of self source))
              (pending_metrics self)\<rparr>"

text \<open>
  The \<^verbatim>\<open>try\<close> block.  \<open>Inr\<close> is the state at a normal end (a \<^verbatim>\<open>return\<close> or the last
  statement), \<open>Inl\<close> the exception raised and the state at that moment.
\<close>

definition receive_try ::
  "influxdb \<Rightarrow> metric \<Rightarrow> (exn \<times> influxdb) + influxdb" where
  "receive_try self m =
     (if \<not> enabled self then Inr self
      else case definitions self of
        None \<Rightarrow> Inr self
      | Some defs \<Rightarrow>
         (let metric_type = m_type m;
              source = lower (m_source m);
              timestamp = m_timestamp m * 1000000000;
              value = m_value m
          in (case lookup_definition defs (m_source m) metric_type (m_metric m) of
                None \<Rightarrow> Inr self
              | Some d \<Rightarrow>
                 (let value = encode_value value
                  in (case build_tags m (def_tags d) [(''type'', PStr source)] of
                        Inl e \<Rightarrow> Inl (e, self)
                      | Inr tags \<Rightarrow>
                         (let entries = bucket self source metric_type;
                              self1 = set_bucket self source metric_type entries
                          in (case scan_pending metric_type (def_tags d) tags timestamp
                                     (m_metric m) value entries of
                                Inl e \<Rightarrow> Inl (e, self1)
                              | Inr (found, pushed, entries') \<Rightarrow>
                                 (let self2 =
                                        (case pushed of
                                           None \<Rightarrow> self1
                                         | Some data \<Rightarrow>
                                             self1\<lparr>send_queue :=
                                                      appendleft data (send_queue self1)\<rparr>);
                                      entries'' =
                                        (if found then entries'
                                         else entries' @
                                           [\<lparr>grp_timestamp = timestamp, grp_tags = tags,
                                             grp_fields = [(m_metric m, value)]\<rparr>])
                                  in Inr (set_bucket self2 source metric_type
                                            entries'')))))))))"

text \<open>
  \<^verbatim>\<open>except Exception as ex\<close>: every exception of the model is a subclass of
  \<^verbatim>\<open>Exception\<close>.  The result is what the caller sees: \<open>Inl\<close> an exception that leaves
  the function, \<open>Inr\<close> the state and the exceptions that were logged.
\<close>

fun isinstance_Exception :: "exn \<Rightarrow> bool" where
  "isinstance_Exception (KeyError k) = True"
| "isinstance_Exception OverflowError = True"
| "isinstance_Exception IndexError = True"

definition receive_metric_data ::
  "influxdb \<Rightarrow> metric \<Rightarrow> exn + (influxdb \<times> exn list)" where
  "receive_metric_data self m =
     (case receive_try self m of
        Inr self' \<Rightarrow> Inr (self', [])
      | Inl (ex, self') \<Rightarrow>
          if isinstance_Exception ex then Inr (self', [ex]) else Inl ex)"

text \<open>The state after a call, for a run of several calls.\<close>

definition ingest :: "influxdb \<Rightarrow> metric \<Rightarrow> influxdb" where
  "ingest self m =
     (case receive_metric_data self m of Inr (self', logged) \<Rightarrow> self' | Inl ex \<Rightarrow> self)"

section \<open>The sender\<close>

text \<open>
  One pass of the inner \<^verbatim>\<open>while True\<close> of \<^verbatim>\<open>_sender\<close>: pop from the right until the
  deque is empty (\<^verbatim>\<open>pop\<close> raises \<^verbatim>\<open>IndexError\<close>) or \<^verbatim>\<open>len(data) == self._batch_size\<close>
  (the code raises \<^verbatim>\<open>IndexError\<close> itself).
\<close>

function drain :: "string list \<Rightarrow> string list \<Rightarrow> int \<Rightarrow> string list \<times> string list" where
  "drain data q bs =
     (case pop q of
        Inl e \<Rightarrow> (data, q)
      | Inr (x, q') \<Rightarrow>
          let data' = data @ [x]
          in if int (length data') = bs then (data', q') else drain data' q' bs)"
  by pat_completeness auto
termination
  by (relation "measure (\<lambda>(data, q, bs). length q)") (auto simp: pop_def split: if_splits)

declare drain.simps [simp del]

text \<open>
  One cycle of the sender: the new state and the bodies of the HTTP requests it posts
  (none or one).  The statistics window and the sleep are left out.
\<close>

definition sender_cycle :: "influxdb \<Rightarrow> influxdb \<times> string list" where
  "sender_cycle self =
     (let (data, q) = drain [] (send_queue self) (batch_size self)
      in (self\<lparr>send_queue := q\<rparr>,
          if length data > 0 then [join [CHR 0x0A] data] else []))"

text \<open>The batches drained by a number of consecutive cycles, and what is left.\<close>

fun drain_cycles :: "nat \<Rightarrow> string list \<Rightarrow> int \<Rightarrow> string list list \<times> string list" where
  "drain_cycles 0 q bs = ([], q)"
| "drain_cycles (Suc n) q bs =
     (let (data, q') = drain [] q bs;
          (batches, q'') = drain_cycles n q' bs
      in (data # batches, q''))"

text \<open>
  How many entries one pass of the loop takes from a deque of \<open>n\<close> entries when \<open>l\<close>
  entries are in \<^verbatim>\<open>data\<close> already: the test \<^verbatim>\<open>len(data) == self._batch_size\<close> can only
  succeed while \<^verbatim>\<open>data\<close> is shorter than the batch size.
\<close>

definition batch_count :: "nat \<Rightarrow> int \<Rightarrow> nat \<Rightarrow> nat" where
  "batch_count l bs n = (if int l < bs then min (nat (bs - int l)) n else n)"

section \<open>Notions the properties are stated with\<close>

text \<open>
  Two tag dictionaries agree on a list of keys when \<^verbatim>\<open>a.get(k) == b.get(k)\<close> for each of
  them: what the inner loop of the scan tests, with the definition's tags as the keys.
\<close>

definition agree :: "string list \<Rightarrow> dict \<Rightarrow> dict \<Rightarrow> bool" where
  "agree ks a b = list_all (\<lambda>k. py_eq (dict_get a k) (dict_get b k)) ks"

text \<open>
  \<^verbatim>\<open>a == b\<close> on two dictionaries: the same keys, with equal values.  And the tag
  dictionaries that lines 138 to 143 can build in the bucket of the source \<open>s\<close> from a
  definition with the tags \<open>ks\<close>.
\<close>

definition dict_eq :: "dict \<Rightarrow> dict \<Rightarrow> bool" where
  "dict_eq a b =
     (set (map fst a) = set (map fst b) \<and>
      list_all (\<lambda>k. py_eq (dict_get a k) (dict_get b k)) (map fst a))"

definition built_tags :: "string \<Rightarrow> string list \<Rightarrow> dict \<Rightarrow> bool" where
  "built_tags s ks t = (\<exists>m. build_tags m ks [(''type'', PStr s)] = Inr t)"

text \<open>
  The group line 163 appends for a metric, the group line 156 leaves after a merge, and
  the entry line 158 renders for a group.
\<close>

definition new_group :: "metric \<Rightarrow> dict \<Rightarrow> group" where
  "new_group m tags =
     \<lparr>grp_timestamp = m_timestamp m * 1000000000, grp_tags = tags,
      grp_fields = [(m_metric m, encode_value (m_value m))]\<rparr>"

definition merged :: "metric \<Rightarrow> group \<Rightarrow> group" where
  "merged m g =
     g\<lparr>grp_fields := AList.update (m_metric m) (encode_value (m_value m)) (grp_fields g)\<rparr>"

definition render :: "string \<Rightarrow> group \<Rightarrow> exn + string" where
  "render metric_type g =
     build_entry metric_type (grp_tags g) (Fields (grp_fields g)) (Some (grp_timestamp g))"

text \<open>
  The call gets as far as the scan: the plugin is enabled, the definitions are loaded
  and hold the definition \<open>d\<close> for the metric, and every tag of \<open>d\<close> is an attribute of
  the metric, which gives the tags \<open>tags\<close>.
\<close>

definition reaches_scan :: "influxdb \<Rightarrow> metric \<Rightarrow> metric_definition \<Rightarrow> dict \<Rightarrow> bool" where
  "reaches_scan self m d tags =
     (enabled self \<and>
      (case definitions self of
         None \<Rightarrow> False
       | Some defs \<Rightarrow> lookup_definition defs (m_source m) (m_type m) (m_metric m) = Some d) \<and>
      build_tags m (def_tags d) [(''type'', PStr (lower (m_source m)))] = Inr tags)"

text \<open>No two groups of a list agree on the keys \<open>ks\<close>.\<close>

fun one_per_identity :: "string list \<Rightarrow> group list \<Rightarrow> bool" where
  "one_per_identity ks [] = True"
| "one_per_identity ks (g # gs) =
     (list_all (\<lambda>h. \<not> agree ks (grp_tags g) (grp_tags h)) gs \<and> one_per_identity ks gs)"

text \<open>
  The definitions are uniform when every metric whose samples land in one bucket (the
  lower-cased source and the type) has the tag list \<open>L\<close> gives for that bucket.
\<close>

definition uniform_tags :: "definitions \<Rightarrow> (string \<Rightarrow> string \<Rightarrow> string list) \<Rightarrow> bool" where
  "uniform_tags defs L =
     list_all (\<lambda>(source, by_type).
       list_all (\<lambda>(metric_type, by_name).
         list_all (\<lambda>(name, d). def_tags d = L (lower source) metric_type) by_name) by_type)
       defs"

text \<open>
  An example after the docstring of \<^verbatim>\<open>_receive_metric_data\<close>: the source \<^verbatim>\<open>OpenMotics\<close>
  with two metrics of the type \<^verbatim>\<open>energy\<close>, \<^verbatim>\<open>power\<close> tagged by device and id and
  \<^verbatim>\<open>frequency\<close> tagged by id alone; a metric of the device with id 0; and the plugin
  started with an endpoint, with these definitions loaded.
\<close>

definition example_definitions :: definitions where
  "example_definitions =
     [(''OpenMotics'',
       [(''energy'',
         [(''power'', \<lparr>def_tags = [''device'', ''id'']\<rparr>),
          (''frequency'', \<lparr>def_tags = [''id'']\<rparr>)])])]"

definition example_metric :: "string \<Rightarrow> int \<Rightarrow> pyval \<Rightarrow> metric" where
  "example_metric name timestamp value =
     \<lparr>m_source = ''OpenMotics'', m_type = ''energy'', m_metric = name,
      m_timestamp = timestamp, m_value = value,
      m_extra = [(''device'', PStr ''ID1''), (''id'', PInt 0)]\<rparr>"

definition example_start :: influxdb where
  "example_start =
     load_definitions example_definitions (init ''http://influx:8086'' ''openmotics'' 10)"

section \<open>The value encoder: what each kind of value becomes\<close>

lemma encode_value_bool: "encode_value (PBool b) = PStr (if b then ''True'' else ''False'')"
  by (simp add: encode_value_def)

lemma encode_value_str: "encode_value (PStr s) = PStr ([CHR 0x22] @ s @ [CHR 0x22])"
  by (simp add: encode_value_def)

lemma encode_value_int: "encode_value (PInt n) = PStr (show_int n @ ''i'')"
  by (simp add: encode_value_def)

lemma encode_value_long: "encode_value (PLong n) = PLong n"
  by (simp add: encode_value_def)

lemma encode_value_float: "encode_value (PFloat r s) = PFloat r s"
  by (simp add: encode_value_def)

lemma encode_value_none: "encode_value PNone = PNone"
  by (simp add: encode_value_def)

text \<open>
  Claim C2, as stated, at the input \<^verbatim>\<open>True\<close>: the claim gives the token \<^verbatim>\<open>true\<close>, while
  \<^verbatim>\<open>str(True)\<close> is \<^verbatim>\<open>True\<close>.
\<close>

theorem C2_lowercase_true_counterexample: "encode_value (PBool True) \<noteq> PStr ''true''"
  by (simp add: encode_value_def)

text \<open>
  Claim C2, amended: a boolean is encoded as the text \<^verbatim>\<open>True\<close> or \<^verbatim>\<open>False\<close> that
  \<^verbatim>\<open>str()\<close> gives, and never as anything that ends in the integer suffix \<^verbatim>\<open>i\<close>: the
  boolean test runs before the integer test and leaves a string, which the integer test
  passes over.
\<close>

theorem C2_bool_encoded_as_str:
  "encode_value (PBool b) = PStr (if b then ''True'' else ''False'') \<and>
   (\<forall>digits. encode_value (PBool b) \<noteq> PStr (digits @ ''i''))"
  by (cases b) (auto simp: encode_value_def dest: arg_cong[where f = last])

text \<open>
  Claim C8 at a Python 2 \<^verbatim>\<open>long\<close>, the integer \<^verbatim>\<open>2**63\<close>: \<^verbatim>\<open>isinstance(value, int)\<close> is
  false for it, the encoder leaves it as it is, and the field is written without the
  suffix \<^verbatim>\<open>i\<close>.
\<close>

theorem C8_long_without_suffix:
  "encode_value (PLong 9223372036854775808) = PLong 9223372036854775808 \<and>
   format_item (''power_counter'', encode_value (PLong 9223372036854775808)) =
     ''power_counter=9223372036854775808''"
  by code_simp

section \<open>The entry encoder: the rendered line\<close>

subsection \<open>When \<^verbatim>\<open>float()\<close> keeps an integer as it is\<close>

lemma bit_length_le: "n < 2 ^ k \<Longrightarrow> bit_length n \<le> k"
proof (induction k arbitrary: n)
  case 0
  then show ?case by (simp add: bit_length.simps)
next
  case (Suc k)
  show ?case
  proof (cases "n \<le> 0")
    case True
    then show ?thesis by (simp add: bit_length.simps)
  next
    case False
    from Suc.prems have "n div 2 < 2 ^ k" by simp
    then have "bit_length (n div 2) \<le> k" by (rule Suc.IH)
    with False show ?thesis by (subst bit_length.simps) simp
  qed
qed

lemma round_double_exact:
  assumes "0 \<le> m" "m < 2 ^ 53"
  shows "round_double (m * 2 ^ k) = m * 2 ^ k"
proof -
  let ?n = "m * 2 ^ k"
  let ?b = "bit_length ?n"
  have "?n < 2 ^ 53 * 2 ^ k" using assms by simp
  then have "?n < 2 ^ (53 + k)" by (simp add: power_add)
  then have b: "?b \<le> 53 + k" by (rule bit_length_le)
  show ?thesis
  proof (cases "?b \<le> 53")
    case True
    then show ?thesis by (simp add: round_double_def)
  next
    case False
    define sh where "sh = ?b - 53"
    have sh: "0 < sh" "sh \<le> k" using False b by (simp_all add: sh_def)
    have dvd: "(2::int) ^ sh dvd ?n"
      using sh by (simp add: le_imp_power_dvd)
    then have r: "?n mod 2 ^ sh = 0" by simp
    have half: "(0::int) < 2 ^ (sh - 1)" by simp
    from dvd have q: "?n div 2 ^ sh * 2 ^ sh = ?n" by simp
    show ?thesis
      using False r half q unfolding round_double_def Let_def sh_def[symmetric]
      by simp
  qed
qed

text \<open>An integer with at most 53 significant bits, below the largest double, is exact.\<close>

lemma float_of_int_exact:
  assumes "\<bar>n\<bar> = m * 2 ^ k" "m < 2 ^ 53" "\<bar>n\<bar> < 2 ^ 1024"
  shows "float_of_int n = Inr n"
proof -
  have "0 \<le> m"
  proof (rule ccontr)
    assume "\<not> 0 \<le> m"
    then have "m * 2 ^ k < 0" by (simp add: mult_less_0_iff)
    with assms(1) show False by simp
  qed
  then have "round_double \<bar>n\<bar> = \<bar>n\<bar>"
    using assms(1,2) round_double_exact by simp
  then show ?thesis using assms(3) by (auto simp: float_of_int_def Let_def)
qed

lemma float_of_int_small: "\<bar>n\<bar> \<le> 2 ^ 53 \<Longrightarrow> float_of_int n = Inr n"
proof (cases "\<bar>n\<bar> = 2 ^ 53")
  case True
  then have "\<bar>n\<bar> = 1 * 2 ^ 53" by simp
  moreover have "\<bar>n\<bar> < 2 ^ 1024" using True by simp
  ultimately show ?thesis using float_of_int_exact[of n 1 53] by simp
next
  case False
  assume "\<bar>n\<bar> \<le> 2 ^ 53"
  with False have lt: "\<bar>n\<bar> < 2 ^ 53" by simp
  then have "\<bar>n\<bar> < 2 ^ 1024"
    by (rule less_trans) simp
  with lt show ?thesis using float_of_int_exact[of n "\<bar>n\<bar>" 0] by simp
qed

text \<open>
  The timestamps the grouping table renders are whole seconds times \<open>10\<^sup>9\<close>; they are
  exact for every second count up to \<open>2\<^sup>5\<^sup>3 / 5\<^sup>9\<close>.
\<close>

lemma float_of_int_seconds:
  assumes "\<bar>sec\<bar> \<le> 4611686018"
  shows "float_of_int (sec * 1000000000) = Inr (sec * 1000000000)"
proof -
  have a: "\<bar>sec * 1000000000\<bar> = (\<bar>sec\<bar> * 1953125) * 2 ^ 9" by (simp add: abs_mult)
  have b: "\<bar>sec\<bar> * 1953125 < 2 ^ 53" using assms by simp
  have "\<bar>sec * 1000000000\<bar> \<le> 4611686018 * 1000000000" using assms by (simp add: abs_mult)
  also have "\<dots> < (2::int) ^ 1024" by simp
  finally have c: "\<bar>sec * 1000000000\<bar> < 2 ^ 1024" .
  from a b c show ?thesis by (rule float_of_int_exact)
qed

subsection \<open>What \<^verbatim>\<open>float()\<close> does to every integer\<close>

text \<open>
  The bit length brackets a positive integer between two powers of two; \<^verbatim>\<open>float()\<close> gives
  a multiple of \<open>2\<^sup>b\<^sup>-\<^sup>5\<^sup>3\<close> at most half of it away, the even multiple on a tie; and the
  conversion overflows from \<open>2\<^sup>1\<^sup>0\<^sup>2\<^sup>4 - 2\<^sup>9\<^sup>7\<^sup>0\<close> on, the midpoint between the largest
  double and \<open>2\<^sup>1\<^sup>0\<^sup>2\<^sup>4\<close>.
\<close>

lemma bit_length_upper: "n < 2 ^ bit_length n"
proof (induction n rule: bit_length.induct)
  case (1 n)
  show ?case
  proof (cases "n \<le> 0")
    case True
    then show ?thesis by (subst bit_length.simps) simp
  next
    case False
    with 1 have "n div 2 < 2 ^ bit_length (n div 2)" by simp
    then have "n < 2 * 2 ^ bit_length (n div 2)" by linarith
    with False show ?thesis by (subst bit_length.simps) simp
  qed
qed

lemma bit_length_lower: "0 < n \<Longrightarrow> 2 ^ (bit_length n - 1) \<le> n"
proof (induction n rule: bit_length.induct)
  case (1 n)
  show ?case
  proof (cases "n div 2 \<le> 0")
    case True
    with "1.prems" have "n = 1" by linarith
    then show ?thesis by (simp add: bit_length.simps)
  next
    case False
    then have p: "0 < n div 2" by simp
    with 1 have ih: "2 ^ (bit_length (n div 2) - 1) \<le> n div 2" by simp
    from p have "0 < bit_length (n div 2)" by (subst bit_length.simps) simp
    then have "(2::int) ^ bit_length (n div 2) = 2 * 2 ^ (bit_length (n div 2) - 1)"
      by (cases "bit_length (n div 2)") simp_all
    with ih have "2 ^ bit_length (n div 2) \<le> n" by linarith
    with "1.prems" show ?thesis by (subst bit_length.simps) simp
  qed
qed

text \<open>rounding: result is q' * 2^sh with q' <= 2^53 and within half a unit\<close>

lemma round_double_nearest:
  assumes "0 \<le> n"
  shows "\<exists>q. round_double n = q * 2 ^ (bit_length n - 53) \<and> 0 \<le> q \<and> q \<le> 2 ^ 53 \<and>
             2 * \<bar>round_double n - n\<bar> \<le> 2 ^ (bit_length n - 53) \<and>
             (2 * \<bar>round_double n - n\<bar> = 2 ^ (bit_length n - 53) \<longrightarrow> even q)"
proof (cases "bit_length n \<le> 53")
  case True
  have "n < 2 ^ bit_length n" by (rule bit_length_upper)
  also have "(2::int) ^ bit_length n \<le> 2 ^ 53" using True by (rule power_increasing) simp
  finally have "n \<le> 2 ^ 53" by simp
  with True assms show ?thesis by (simp add: round_double_def)
next
  case False
  define sh where "sh = bit_length n - 53"
  define S :: int where "S = 2 ^ sh"
  define H :: int where "H = 2 ^ (sh - 1)"
  define q where "q = n div S"
  define r where "r = n mod S"
  define q' where "q' = (if r > H \<or> (r = H \<and> odd q) then q + 1 else q)"
  from False have sh: "0 < sh" "bit_length n = 53 + sh" by (simp_all add: sh_def)
  have S: "0 < S" by (simp add: S_def)
  have half: "S = 2 * H" unfolding S_def H_def using sh(1) by (cases sh) simp_all
  have rd: "round_double n = q' * S"
    using False by (simp add: round_double_def Let_def sh_def S_def H_def q_def r_def q'_def)
  have n: "n = q * S + r" unfolding q_def r_def by (rule div_mult_mod_eq[symmetric])
  have r: "0 \<le> r" "r < S" using S by (simp_all add: r_def)
  have q0: "0 \<le> q" using assms S by (simp add: q_def pos_imp_zdiv_nonneg_iff)
  have "n < 2 ^ (53 + sh)" using bit_length_upper[of n] sh by simp
  then have "n < 2 ^ 53 * S" by (simp add: power_add S_def)
  then have lt: "q * S + r < 2 ^ 53 * S" using n by simp
  have q53: "q < 2 ^ 53"
  proof (rule ccontr)
    assume "\<not> q < 2 ^ 53"
    then have "(2::int) ^ 53 \<le> q" by simp
    then have "(2::int) ^ 53 * S \<le> q * S" using S by (intro mult_right_mono) simp_all
    with lt r(1) show False by linarith
  qed
  have q'b: "0 \<le> q'" "q' \<le> 2 ^ 53" using q0 q53 by (simp_all add: q'_def)
  have d: "2 * \<bar>q' * S - n\<bar> \<le> S \<and> (2 * \<bar>q' * S - n\<bar> = S \<longrightarrow> even q')"
  proof (cases "r > H \<or> (r = H \<and> odd q)")
    case True
    then have q': "q' = q + 1" by (simp add: q'_def)
    then have "q' * S - n = S - r" using n by (simp add: algebra_simps)
    with r have e: "\<bar>q' * S - n\<bar> = S - r" by simp
    from True have hr: "H \<le> r" by auto
    have "2 * (S - r) \<le> S" using hr half by simp
    moreover have "even q'" if "2 * (S - r) = S"
    proof -
      from that half have "r = H" by simp
      with True have "odd q" by simp
      with q' show ?thesis by simp
    qed
    ultimately show ?thesis unfolding e by blast
  next
    case False
    then have q': "q' = q" by (simp add: q'_def)
    then have "q' * S - n = - r" using n by simp
    with r have e: "\<bar>q' * S - n\<bar> = r" by simp
    from False have hr: "r \<le> H" by auto
    have "2 * r \<le> S" using hr half by simp
    moreover have "even q'" if "2 * r = S"
    proof -
      from that half have "r = H" by simp
      with False have "even q" by simp
      with q' show ?thesis by simp
    qed
    ultimately show ?thesis unfolding e by blast
  qed
  have "round_double n = q' * S \<and> 0 \<le> q' \<and> q' \<le> 2 ^ 53 \<and>
        2 * \<bar>round_double n - n\<bar> \<le> S \<and> (2 * \<bar>round_double n - n\<bar> = S \<longrightarrow> even q')"
    using rd q'b d by simp
  then show ?thesis unfolding S_def sh_def by (rule exI)
qed

lemma round_double_overflow:
  assumes "0 \<le> n"
  shows "(2 ^ 1024 \<le> round_double n) = (2 ^ 1024 - 2 ^ 970 \<le> n)"
proof -
  have up: "n < 2 ^ bit_length n" by (rule bit_length_upper)
  show ?thesis
  proof (cases "bit_length n \<le> 53")
    case True
    have "(2::int) ^ bit_length n \<le> 2 ^ 53" using True by (rule power_increasing) simp
    with up have "n < 2 ^ 53" by simp
    moreover have "round_double n = n" using True by (simp add: round_double_def)
    ultimately show ?thesis by simp
  next
    case False
    define sh where "sh = bit_length n - 53"
    define q where "q = n div 2 ^ sh"
    define r where "r = n mod 2 ^ sh"
    define q' where "q' = (if r > 2 ^ (sh - 1) \<or> (r = 2 ^ (sh - 1) \<and> odd q) then q + 1 else q)"
    from False have sh: "0 < sh" "bit_length n = 53 + sh" by (simp_all add: sh_def)
    have rd: "round_double n = q' * 2 ^ sh"
      using False by (simp add: round_double_def Let_def sh_def q_def r_def q'_def)
    have n: "n = q * 2 ^ sh + r" unfolding q_def r_def by (rule div_mult_mod_eq[symmetric])
    have r: "0 \<le> r" "r < 2 ^ sh" by (simp_all add: r_def)
    have q0: "0 \<le> q" using assms by (simp add: q_def pos_imp_zdiv_nonneg_iff)
    have "n < 2 ^ (53 + sh)" using up sh by simp
    then have lt: "q * 2 ^ sh + r < 2 ^ 53 * 2 ^ sh" using n by (simp add: power_add)
    have q53: "q < 2 ^ 53"
    proof (rule ccontr)
      assume "\<not> q < 2 ^ 53"
      then have "(2::int) ^ 53 \<le> q" by simp
      then have "(2::int) ^ 53 * 2 ^ sh \<le> q * 2 ^ sh" by (rule mult_right_mono) simp
      with lt r(1) show False by linarith
    qed
    have q'q: "q \<le> q'" "q' \<le> q + 1" by (simp_all add: q'_def)
    consider (small) "sh \<le> 970" | (edge) "sh = 971" | (big) "972 \<le> sh" by linarith
    then show ?thesis
    proof cases
      case small
      have "53 + sh \<le> 1023" using small by simp
      then have "(2::int) ^ (53 + sh) \<le> 2 ^ 1023" by (rule power_increasing) simp
      then have b: "(2::int) ^ 53 * 2 ^ sh \<le> 2 ^ 1023" by (simp add: power_add)
      have "q' * 2 ^ sh \<le> 2 ^ 53 * 2 ^ sh"
        using q'q q53 by (intro mult_right_mono) simp_all
      with b have "round_double n \<le> 2 ^ 1023" unfolding rd by linarith
      moreover from lt n b have "n < 2 ^ 1023" by linarith
      ultimately show ?thesis by simp
    next
      case big
      have "0 < n"
      proof (rule ccontr)
        assume "\<not> 0 < n"
        with assms have "n = 0" by simp
        then have "bit_length n = 0" by (simp add: bit_length.simps)
        with False show False by simp
      qed
      from bit_length_lower[OF this] sh have lo: "2 ^ (52 + sh) \<le> n" by simp
      have "1024 \<le> 52 + sh" using big by simp
      then have "(2::int) ^ 1024 \<le> 2 ^ (52 + sh)" by (rule power_increasing) simp
      then have b: "(2::int) ^ 1024 \<le> 2 ^ 52 * 2 ^ sh" by (simp add: power_add)
      have q52: "2 ^ 52 \<le> q"
      proof (rule ccontr)
        assume "\<not> 2 ^ 52 \<le> q"
        then have "q + 1 \<le> 2 ^ 52" by simp
        then have "(q + 1) * 2 ^ sh \<le> 2 ^ 52 * 2 ^ sh" by (rule mult_right_mono) simp
        then have "q * 2 ^ sh + 2 ^ sh \<le> 2 ^ 52 * 2 ^ sh" by (simp add: algebra_simps)
        moreover from lo have "2 ^ 52 * 2 ^ sh \<le> n" by (simp only: power_add)
        ultimately show False using n r(2) by linarith
      qed
      then have "2 ^ 52 \<le> q'" using q'q by simp
      then have "(2::int) ^ 52 * 2 ^ sh \<le> q' * 2 ^ sh" by (rule mult_right_mono) simp
      with b have "2 ^ 1024 \<le> round_double n" unfolding rd by linarith
      moreover from lo have "2 ^ 52 * 2 ^ sh \<le> n" by (simp only: power_add)
      with b have "2 ^ 1024 \<le> n" by linarith
      ultimately show ?thesis by simp
    next
      case edge
      define S :: int where "S = 2 ^ 971"
      define H :: int where "H = 2 ^ 970"
      have SH: "S = 2 * H" "0 < H" by (simp_all add: S_def H_def)
      have pw: "(2::int) ^ sh = S" "(2::int) ^ (sh - 1) = H" using edge by (simp_all add: S_def H_def)
      have big: "(2::int) ^ 1024 = 2 ^ 53 * S" "(2::int) ^ 970 = H" by (simp_all add: S_def H_def)
      have nS: "n = q * S + r" using n pw by simp
      have rS: "r < S" using r pw by simp
      show ?thesis
      proof (cases "q = 2 ^ 53 - 1")
        case True
        then have oq: "odd q" by simp
        have q'eq: "q' = (if H \<le> r then 2 ^ 53 else 2 ^ 53 - 1)"
          using oq True pw by (auto simp: q'_def)
        have nq: "n = 2 ^ 53 * S - S + r" using nS True by (simp add: algebra_simps)
        show ?thesis
        proof (cases "H \<le> r")
          case True
          with q'eq have "round_double n = 2 ^ 53 * S" unfolding rd pw by simp
          moreover from True nq SH have "2 ^ 53 * S - H \<le> n" by linarith
          ultimately show ?thesis unfolding big by simp
        next
          case False
          with q'eq have "round_double n = (2 ^ 53 - 1) * S" unfolding rd pw by simp
          then have "round_double n = 2 ^ 53 * S - S" by (simp add: algebra_simps)
          moreover from False nq SH have "n < 2 ^ 53 * S - H" by linarith
          ultimately show ?thesis unfolding big using SH by simp
        qed
      next
        case False
        with q53 have q2: "q + 2 \<le> 2 ^ 53" by simp
        then have "(q + 2) * S \<le> 2 ^ 53 * S" using SH by (intro mult_right_mono) simp_all
        then have qs: "q * S + 2 * S \<le> 2 ^ 53 * S" by (simp add: algebra_simps)
        have "q' * S \<le> (q + 1) * S" using q'q SH by (intro mult_right_mono) simp_all
        then have "q' * S \<le> q * S + S" by (simp add: algebra_simps)
        with qs SH have "round_double n < 2 ^ 53 * S" unfolding rd pw by linarith
        moreover from qs nS rS SH have "n < 2 ^ 53 * S - H" by linarith
        ultimately show ?thesis unfolding big by simp
      qed
    qed
  qed
qed

lemma float_of_int_nearest:
  assumes "float_of_int t = Inr x"
  shows "\<exists>q. x = sgn t * (q * 2 ^ (bit_length \<bar>t\<bar> - 53)) \<and> 0 \<le> q \<and> q \<le> 2 ^ 53 \<and>
             2 * \<bar>x - t\<bar> \<le> 2 ^ (bit_length \<bar>t\<bar> - 53) \<and>
             (2 * \<bar>x - t\<bar> = 2 ^ (bit_length \<bar>t\<bar> - 53) \<longrightarrow> even q)"
proof -
  define a where "a = round_double \<bar>t\<bar>"
  define u :: int where "u = 2 ^ (bit_length \<bar>t\<bar> - 53)"
  from assms have x: "x = (if t < 0 then - a else a)"
    unfolding float_of_int_def Let_def a_def[symmetric] by (simp split: if_splits)
  have "\<exists>q. a = q * u \<and> 0 \<le> q \<and> q \<le> 2 ^ 53 \<and> 2 * \<bar>a - \<bar>t\<bar>\<bar> \<le> u \<and>
            (2 * \<bar>a - \<bar>t\<bar>\<bar> = u \<longrightarrow> even q)"
    unfolding a_def u_def by (rule round_double_nearest) simp
  then obtain q where
    q: "a = q * u" "0 \<le> q" "q \<le> 2 ^ 53" "2 * \<bar>a - \<bar>t\<bar>\<bar> \<le> u"
       "2 * \<bar>a - \<bar>t\<bar>\<bar> = u \<longrightarrow> even q"
    by blast
  consider (neg) "t < 0" | (zero) "t = 0" | (pos) "0 < t" by linarith
  then have k: "x = sgn t * (q * u) \<and> \<bar>x - t\<bar> = \<bar>a - \<bar>t\<bar>\<bar>"
  proof cases
    case neg
    then have "x = - a" "sgn t = - 1" "\<bar>t\<bar> = - t" using x by simp_all
    then show ?thesis using q(1) by (simp add: abs_if)
  next
    case zero
    have "bit_length 0 = 0" by (subst bit_length.simps) simp
    then have "a = 0" using zero by (simp add: a_def round_double_def)
    with zero x show ?thesis by simp
  next
    case pos
    then have "x = a" "sgn t = 1" "\<bar>t\<bar> = t" using x by simp_all
    then show ?thesis using q(1) by simp
  qed
  from k have k1: "x = sgn t * (q * u)" and k2: "\<bar>x - t\<bar> = \<bar>a - \<bar>t\<bar>\<bar>" by blast+
  from q(4,5) have "2 * \<bar>x - t\<bar> \<le> u \<and> (2 * \<bar>x - t\<bar> = u \<longrightarrow> even q)"
    unfolding k2 by blast
  with k1 q(2,3)
  have "x = sgn t * (q * u) \<and> 0 \<le> q \<and> q \<le> 2 ^ 53 \<and> 2 * \<bar>x - t\<bar> \<le> u \<and>
        (2 * \<bar>x - t\<bar> = u \<longrightarrow> even q)"
    by blast
  then show ?thesis unfolding u_def by (rule exI)
qed

lemma float_of_int_overflow:
  "(float_of_int t = Inl e) = (e = OverflowError \<and> 2 ^ 1024 - 2 ^ 970 \<le> \<bar>t\<bar>)"
proof -
  have "(2 ^ 1024 \<le> round_double \<bar>t\<bar>) = (2 ^ 1024 - 2 ^ 970 \<le> \<bar>t\<bar>)"
    by (rule round_double_overflow) simp
  then show ?thesis unfolding float_of_int_def Let_def by auto
qed

subsection \<open>Characters of the line\<close>

lemma digit_char_digit: "0 \<le> d \<Longrightarrow> d < 10 \<Longrightarrow> digit_char d \<in> set ''0123456789''"
proof -
  assume "0 \<le> d" "d < 10"
  then have "nat d < length ''0123456789''" by simp
  then show ?thesis unfolding digit_char_def by (rule nth_mem)
qed

lemma digits10_digits: "0 \<le> n \<Longrightarrow> set (digits10 n) \<subseteq> set ''0123456789''"
proof (induction n rule: digits10.induct)
  case (1 n)
  show ?case
  proof (cases "n < 10")
    case True
    with "1.prems" digit_char_digit[of n] show ?thesis
      by (subst digits10.simps) simp
  next
    case False
    with "1.prems" have "0 \<le> n div 10" by simp
    with "1.IH" False have "set (digits10 (n div 10)) \<subseteq> set ''0123456789''" by simp
    moreover have "digit_char (n mod 10) \<in> set ''0123456789''"
      by (rule digit_char_digit) simp_all
    ultimately show ?thesis using False by (subst digits10.simps) simp
  qed
qed

lemma show_int_no_newline: "CHR 0x0A \<notin> set (show_int n)"
proof (cases "n < 0")
  case True
  with digits10_digits[of "- n"] show ?thesis by (auto simp: show_int_def)
next
  case False
  with digits10_digits[of n] show ?thesis by (auto simp: show_int_def)
qed

lemma set_join: "set (join sep xs) \<subseteq> set sep \<union> \<Union> (set ` set xs)"
  by (induction sep xs rule: join.induct) auto

text \<open>The entry is a single line when none of its parts holds a newline.\<close>

lemma build_entry_one_line:
  assumes "CHR 0x0A \<notin> set key"
    and "\<forall>kv\<in>set tags \<union> set fvals. CHR 0x0A \<notin> set (format_item kv)"
    and "build_entry key tags (Fields fvals) timestamp = Inr line"
  shows "CHR 0x0A \<notin> set line"
proof -
  have t: "CHR 0x0A \<notin> set (join '','' (map format_item tags))"
    using set_join[of "'',''" "map format_item tags"] assms(2) by auto
  have f: "CHR 0x0A \<notin> set (join '','' (map format_item fvals))"
    using set_join[of "'',''" "map format_item fvals"] assms(2) by auto
  from assms(3) t f assms(1) show ?thesis
    using show_int_no_newline
    by (auto simp: build_entry_def format_0f_def split: option.splits sum.splits)
qed

subsection \<open>The form of the line\<close>

text \<open>
  Claim C9, as stated, at a nanosecond timestamp that is no double,
  \<^verbatim>\<open>1497677091000000001\<close>: the line ends in \<^verbatim>\<open>1497677091000000000\<close>, the nearest double,
  and not in the timestamp.
\<close>

theorem C9_timestamp_rounded_counterexample:
  "build_entry ''power'' [(''type'', PStr ''energy'')] (Fields [(''power'', PStr ''1234i'')])
       (Some 1497677091000000001) =
     Inr ''power,type=energy power=1234i 1497677091000000000'' \<and>
   build_entry ''power'' [(''type'', PStr ''energy'')] (Fields [(''power'', PStr ''1234i'')])
       (Some 1497677091000000001) \<noteq>
     Inr (''power,type=energy power=1234i '' @ show_int 1497677091000000001)"
  by code_simp

text \<open>
  Claim C9, amended: for every family, tags, fields and timestamp the entry encoder gives
  the family, a comma, the tags as \<^verbatim>\<open>key=value\<close> joined by commas in the order of the
  mapping, a space and the fields joined likewise.  With no timestamp (\<^verbatim>\<open>None\<close>) nothing
  follows, not even a space.  With a timestamp \<open>t\<close> a space and the decimal digits of
  \<^verbatim>\<open>float(t)\<close> follow, and \<^verbatim>\<open>OverflowError\<close> is raised instead of a line exactly when
  \<open>\<bar>t\<bar>\<close> is at least \<open>2\<^sup>1\<^sup>0\<^sup>2\<^sup>4 - 2\<^sup>9\<^sup>7\<^sup>0\<close>.  Here \<^verbatim>\<open>float(t)\<close> has the sign of \<open>t\<close>, is a
  multiple of \<open>2\<^sup>b\<^sup>-\<^sup>5\<^sup>3\<close> with a factor of at most \<open>2\<^sup>5\<^sup>3\<close>, for \<open>b\<close> the bit length of \<open>\<bar>t\<bar>\<close>,
  lies at most half of \<open>2\<^sup>b\<^sup>-\<^sup>5\<^sup>3\<close> from \<open>t\<close> and has an even factor when it lies exactly
  half away; it is \<open>t\<close> itself when \<open>\<bar>t\<bar> \<le> 2\<^sup>5\<^sup>3\<close> and when \<open>t\<close> is a number of seconds of at
  most \<open>4611686018\<close> in magnitude times \<open>10\<^sup>9\<close>.  The result is a single line when neither
  the family nor a tag or field holds a newline.
\<close>

theorem C9_entry_line_form:
  "build_entry key tags (Fields fvals) None =
     Inr (key @ '','' @ join '','' (map format_item tags) @ '' '' @
          join '','' (map format_item fvals)) \<and>
   build_entry key tags (Fields fvals) (Some t) =
     (case float_of_int t of
        Inl e \<Rightarrow> Inl e
      | Inr x \<Rightarrow>
          Inr (key @ '','' @ join '','' (map format_item tags) @ '' '' @
               join '','' (map format_item fvals) @ '' '' @ show_int x)) \<and>
   (\<forall>e. (float_of_int t = Inl e) = (e = OverflowError \<and> 2 ^ 1024 - 2 ^ 970 \<le> \<bar>t\<bar>)) \<and>
   (\<forall>x. float_of_int t = Inr x \<longrightarrow>
      (\<exists>q. x = sgn t * (q * 2 ^ (bit_length \<bar>t\<bar> - 53)) \<and> 0 \<le> q \<and> q \<le> 2 ^ 53 \<and>
           2 * \<bar>x - t\<bar> \<le> 2 ^ (bit_length \<bar>t\<bar> - 53) \<and>
           (2 * \<bar>x - t\<bar> = 2 ^ (bit_length \<bar>t\<bar> - 53) \<longrightarrow> even q))) \<and>
   (t \<noteq> 0 \<longrightarrow> 2 ^ (bit_length \<bar>t\<bar> - 1) \<le> \<bar>t\<bar> \<and> \<bar>t\<bar> < 2 ^ bit_length \<bar>t\<bar>) \<and>
   (\<bar>t\<bar> \<le> 2 ^ 53 \<or> (\<exists>sec. t = sec * 1000000000 \<and> \<bar>sec\<bar> \<le> 4611686018) \<longrightarrow>
    float_of_int t = Inr t) \<and>
   (CHR 0x0A \<notin> set key \<and>
    (\<forall>kv\<in>set tags \<union> set fvals. CHR 0x0A \<notin> set (format_item kv)) \<longrightarrow>
    (\<forall>timestamp line. build_entry key tags (Fields fvals) timestamp = Inr line \<longrightarrow>
                     CHR 0x0A \<notin> set line))"
proof (intro conjI)
  show "build_entry key tags (Fields fvals) None =
     Inr (key @ '','' @ join '','' (map format_item tags) @ '' '' @
          join '','' (map format_item fvals))"
    by (simp add: build_entry_def)
  show "build_entry key tags (Fields fvals) (Some t) =
     (case float_of_int t of
        Inl e \<Rightarrow> Inl e
      | Inr x \<Rightarrow>
          Inr (key @ '','' @ join '','' (map format_item tags) @ '' '' @
               join '','' (map format_item fvals) @ '' '' @ show_int x))"
    by (simp add: build_entry_def format_0f_def split: sum.splits)
  show "\<forall>e. (float_of_int t = Inl e) = (e = OverflowError \<and> 2 ^ 1024 - 2 ^ 970 \<le> \<bar>t\<bar>)"
    by (rule allI) (rule float_of_int_overflow)
  show "\<forall>x. float_of_int t = Inr x \<longrightarrow>
      (\<exists>q. x = sgn t * (q * 2 ^ (bit_length \<bar>t\<bar> - 53)) \<and> 0 \<le> q \<and> q \<le> 2 ^ 53 \<and>
           2 * \<bar>x - t\<bar> \<le> 2 ^ (bit_length \<bar>t\<bar> - 53) \<and>
           (2 * \<bar>x - t\<bar> = 2 ^ (bit_length \<bar>t\<bar> - 53) \<longrightarrow> even q))"
    by (intro allI impI) (rule float_of_int_nearest)
  show "t \<noteq> 0 \<longrightarrow> 2 ^ (bit_length \<bar>t\<bar> - 1) \<le> \<bar>t\<bar> \<and> \<bar>t\<bar> < 2 ^ bit_length \<bar>t\<bar>"
  proof (intro impI conjI)
    assume "t \<noteq> 0"
    then have "0 < \<bar>t\<bar>" by simp
    then show "2 ^ (bit_length \<bar>t\<bar> - 1) \<le> \<bar>t\<bar>" by (rule bit_length_lower)
    show "\<bar>t\<bar> < 2 ^ bit_length \<bar>t\<bar>" by (rule bit_length_upper)
  qed
  show "\<bar>t\<bar> \<le> 2 ^ 53 \<or> (\<exists>sec. t = sec * 1000000000 \<and> \<bar>sec\<bar> \<le> 4611686018) \<longrightarrow>
    float_of_int t = Inr t"
  proof
    assume "\<bar>t\<bar> \<le> 2 ^ 53 \<or> (\<exists>sec. t = sec * 1000000000 \<and> \<bar>sec\<bar> \<le> 4611686018)"
    then show "float_of_int t = Inr t"
    proof
      assume "\<bar>t\<bar> \<le> 2 ^ 53"
      then show ?thesis by (rule float_of_int_small)
    next
      assume "\<exists>sec. t = sec * 1000000000 \<and> \<bar>sec\<bar> \<le> 4611686018"
      then obtain sec where "t = sec * 1000000000" "\<bar>sec\<bar> \<le> 4611686018" by blast
      then show ?thesis using float_of_int_seconds[of sec] by simp
    qed
  qed
  show "CHR 0x0A \<notin> set key \<and>
    (\<forall>kv\<in>set tags \<union> set fvals. CHR 0x0A \<notin> set (format_item kv)) \<longrightarrow>
    (\<forall>timestamp line. build_entry key tags (Fields fvals) timestamp = Inr line \<longrightarrow>
                     CHR 0x0A \<notin> set line)"
    using build_entry_one_line[of key tags fvals] by blast
qed

theorem C9_entry_line_form_witness:
  "build_entry ''power''
      [(''type'', PStr ''energy''), (''device'', PStr (replace_space ''Meter 1''))]
      (Fields [(''power'', encode_value (PInt 1234))]) None =
     Inr (''power,type=energy,device=Meter'' @ [CHR 0x5C] @ '' 1 power=1234i'') \<and>
   build_entry ''power''
      [(''type'', PStr ''energy''), (''device'', PStr (replace_space ''Meter 1''))]
      (Fields [(''power'', encode_value (PInt 1234))]) (Some 1497677091000000000) =
     Inr (''power,type=energy,device=Meter'' @ [CHR 0x5C] @
          '' 1 power=1234i 1497677091000000000'') \<and>
   CHR 0x0A \<notin> set (''power,type=energy,device=Meter'' @ [CHR 0x5C] @
          '' 1 power=1234i 1497677091000000000'') \<and>
   float_of_int 1497677091000000001 = Inr 1497677091000000000 \<and>
   2 * \<bar>1497677091000000000 - 1497677091000000001\<bar> \<le>
     (2::int) ^ (bit_length \<bar>1497677091000000001\<bar> - 53) \<and>
   2 ^ (bit_length \<bar>1497677091000000001\<bar> - 1) \<le> \<bar>1497677091000000001::int\<bar> \<and>
   float_of_int (2 ^ 1024) = Inl OverflowError \<and>
   build_entry ''power''
      [(''type'', PStr ''energy''), (''device'', PStr (replace_space ''Meter 1''))]
      (Fields [(''power'', encode_value (PInt 1234))]) (Some (2 ^ 1024)) = Inl OverflowError"
proof -
  let ?K = "''power''"
  let ?T = "[(''type'', PStr ''energy''), (''device'', PStr (replace_space ''Meter 1''))]"
  let ?F = "[(''power'', encode_value (PInt 1234))]"
  note t1 = C9_entry_line_form[of ?K ?T ?F 1497677091000000000]
  note t2 = C9_entry_line_form[of ?K ?T ?F 1497677091000000001]
  note t3 = C9_entry_line_form[of ?K ?T ?F "2 ^ 1024"]
  have p: "?K @ '','' @ join '','' (map format_item ?T) @ '' '' @
           join '','' (map format_item ?F) =
           ''power,type=energy,device=Meter'' @ [CHR 0x5C] @ '' 1 power=1234i''"
    by code_simp
  have e: "?K @ '','' @ join '','' (map format_item ?T) @ '' '' @
           join '','' (map format_item ?F) @ '' '' @ show_int 1497677091000000000 =
           ''power,type=energy,device=Meter'' @ [CHR 0x5C] @
           '' 1 power=1234i 1497677091000000000''"
    by code_simp
  have w0: "build_entry ?K ?T (Fields ?F) None =
     Inr (''power,type=energy,device=Meter'' @ [CHR 0x5C] @ '' 1 power=1234i'')"
    using t1[THEN conjunct1] p by simp
  have s1: "\<bar>1497677091000000000::int\<bar> \<le> 2 ^ 53 \<or>
            (\<exists>sec::int. 1497677091000000000 = sec * 1000000000 \<and> \<bar>sec\<bar> \<le> 4611686018)"
    by (intro disjI2 exI[of _ 1497677091]) simp
  have f1: "float_of_int 1497677091000000000 = Inr 1497677091000000000"
    using t1[THEN conjunct2, THEN conjunct2, THEN conjunct2, THEN conjunct2, THEN conjunct2,
             THEN conjunct1] s1 by (rule mp)
  have "build_entry ?K ?T (Fields ?F) (Some 1497677091000000000) =
     Inr (?K @ '','' @ join '','' (map format_item ?T) @ '' '' @
          join '','' (map format_item ?F) @ '' '' @ show_int 1497677091000000000)"
    using t1[THEN conjunct2, THEN conjunct1] unfolding f1 by simp
  with e have w1: "build_entry ?K ?T (Fields ?F) (Some 1497677091000000000) =
     Inr (''power,type=energy,device=Meter'' @ [CHR 0x5C] @
          '' 1 power=1234i 1497677091000000000'')"
    by simp
  have nl: "CHR 0x0A \<notin> set ?K \<and>
            (\<forall>kv\<in>set ?T \<union> set ?F. CHR 0x0A \<notin> set (format_item kv))"
    by code_simp
  have w2: "CHR 0x0A \<notin> set (''power,type=energy,device=Meter'' @ [CHR 0x5C] @
          '' 1 power=1234i 1497677091000000000'')"
    using t1[THEN conjunct2, THEN conjunct2, THEN conjunct2, THEN conjunct2, THEN conjunct2,
             THEN conjunct2, THEN mp, OF nl, rule_format, OF w1] .
  have f2: "float_of_int 1497677091000000001 = Inr 1497677091000000000" by code_simp
  from t2[THEN conjunct2, THEN conjunct2, THEN conjunct2, THEN conjunct1, rule_format, OF f2]
  have w3: "2 * \<bar>1497677091000000000 - 1497677091000000001\<bar> \<le>
     (2::int) ^ (bit_length \<bar>1497677091000000001\<bar> - 53)"
    by blast
  have n2: "(1497677091000000001::int) \<noteq> 0" by simp
  from t2[THEN conjunct2, THEN conjunct2, THEN conjunct2, THEN conjunct2, THEN conjunct1,
          THEN mp, OF n2]
  have w4: "2 ^ (bit_length \<bar>1497677091000000001\<bar> - 1) \<le> \<bar>1497677091000000001::int\<bar>"
    by (rule conjunct1)
  have th: "(2::int) ^ 1024 - 2 ^ 970 \<le> \<bar>2 ^ 1024\<bar>" by simp
  have f3: "float_of_int (2 ^ 1024) = Inl OverflowError"
    using t3[THEN conjunct2, THEN conjunct2, THEN conjunct1, rule_format, of OverflowError] th
    by blast
  have w5: "build_entry ?K ?T (Fields ?F) (Some (2 ^ 1024)) = Inl OverflowError"
    using t3[THEN conjunct2, THEN conjunct1] unfolding f3 by simp
  from w0 w1 w2 f2 w3 w4 f3 w5 show ?thesis by (intro conjI)
qed

section \<open>The dispatch queue and the sender\<close>

lemma drain_eq:
  "drain data q bs =
     (data @ take (batch_count (length data) bs (length q)) (rev q),
      take (length q - batch_count (length data) bs (length q)) q)"
proof (induction q arbitrary: data rule: rev_induct)
  case Nil
  show ?case by (subst drain.simps) (simp add: pop_def)
next
  case (snoc x q)
  show ?case
  proof (cases "int (length data) + 1 = bs")
    case True
    then have k: "batch_count (length data) bs (Suc (length q)) = 1"
      by (simp add: batch_count_def)
    show ?thesis using True by (subst drain.simps) (simp add: pop_def k)
  next
    case False
    have k: "batch_count (length data) bs (Suc (length q)) =
             Suc (batch_count (Suc (length data)) bs (length q))"
      using False by (auto simp: batch_count_def)
    have le: "batch_count (Suc (length data)) bs (length q) \<le> length q"
      by (simp add: batch_count_def)
    show ?thesis
      using False le by (subst drain.simps) (simp add: pop_def k snoc.IH)
  qed
qed

lemma drain_nil:
  "drain [] q bs =
     (take (batch_count 0 bs (length q)) (rev q),
      take (length q - batch_count 0 bs (length q)) q)"
  using drain_eq[of "[]" q bs] by simp

lemma rev_take_front: "k \<le> length q \<Longrightarrow> rev (take (length q - k) q) = drop k (rev q)"
  by (simp add: rev_take)

text \<open>
  Whatever the number of cycles and the batch size, the batches drained so far followed
  by what is still queued, oldest first, are the queue's entries from its right end to
  its left.
\<close>

lemma drain_cycles_order:
  "concat (fst (drain_cycles n q bs)) @ rev (snd (drain_cycles n q bs)) = rev q"
proof (induction n arbitrary: q)
  case 0
  show ?case by simp
next
  case (Suc n)
  let ?k = "batch_count 0 bs (length q)"
  have k: "?k \<le> length q" by (simp add: batch_count_def)
  have "concat (fst (drain_cycles (Suc n) q bs)) @ rev (snd (drain_cycles (Suc n) q bs)) =
        take ?k (rev q) @ rev (take (length q - ?k) q)"
    using Suc.IH[of "take (length q - ?k) q"]
    by (simp add: drain_nil case_prod_beta)
  also have "\<dots> = rev q" using k by (simp add: rev_take_front)
  finally show ?case .
qed

text \<open>Every cycle that finds an entry takes at least one.\<close>

lemma drain_cycles_left:
  "length (snd (drain_cycles n q bs)) \<le> length q - n"
proof (induction n arbitrary: q)
  case 0
  show ?case by simp
next
  case (Suc n)
  let ?k = "batch_count 0 bs (length q)"
  have k: "q \<noteq> [] \<Longrightarrow> 0 < ?k" by (auto simp: batch_count_def)
  have "length (snd (drain_cycles (Suc n) q bs)) \<le> length (take (length q - ?k) q) - n"
    using Suc.IH[of "take (length q - ?k) q"]
    by (simp add: drain_nil case_prod_beta)
  also have "\<dots> \<le> length q - Suc n" using k by (cases "q = []") auto
  finally show ?case .
qed

text \<open>
  Claim C5: entries pushed with \<^verbatim>\<open>appendleft\<close> in the order \<open>xs\<close>, onto a deque \<open>q0\<close>, are
  drained by the sender's cycles, whatever the batch size, in the order they were pushed
  (after those that were waiting in \<open>q0\<close>, oldest first): first in, first out.
\<close>

theorem C5_fifo_delivery:
  "concat (fst (drain_cycles (length q0 + length xs) (fold appendleft xs q0) bs)) = rev q0 @ xs"
proof -
  let ?q = "fold appendleft xs q0"
  have f: "?q = rev xs @ q0"
    by (induction xs arbitrary: q0) (simp_all add: appendleft_def)
  have "length (snd (drain_cycles (length q0 + length xs) ?q bs)) \<le>
        length ?q - (length q0 + length xs)"
    by (rule drain_cycles_left)
  then have e: "snd (drain_cycles (length q0 + length xs) ?q bs) = []" by (simp add: f)
  from drain_cycles_order[of "length q0 + length xs" ?q bs] e
  show ?thesis by (simp add: f)
qed

text \<open>
  Claim C6, as stated, with the batch size 0 and two queued entries: the cycle drains
  both, not \<open>min 0 2 = 0\<close> of them, since \<^verbatim>\<open>len(data) == 0\<close> never holds after a pop.
\<close>

theorem C6_batch_size_zero_counterexample:
  "int (length (fst (drain [] [''B'', ''A''] 0))) \<noteq> min 0 (int (length [''B'', ''A''])) \<and>
   sender_cycle ((init ''http://influx:8086'' ''openmotics'' 0)\<lparr>send_queue := [''B'', ''A'']\<rparr>) =
     ((init ''http://influx:8086'' ''openmotics'' 0)\<lparr>send_queue := []\<rparr>,
      [''A'' @ [CHR 0x0A] @ ''B''])"
  by code_simp

text \<open>
  Claim C6, amended: with a batch size of at least 1, a sender cycle drains exactly
  \<open>n = min batch_size (length of the queue)\<close> entries, the oldest ones in the order they
  were queued; the rest stays queued; and when \<open>n > 0\<close> the drained entries make the body
  of one POST, joined by newlines (no request otherwise).  So with the batch size \<open>N\<close> and
  at least \<open>N + 1\<close> queued entries, \<open>N\<close> entries are posted and the others remain.
\<close>

theorem C6_sender_cycle_batch:
  assumes "1 \<le> batch_size self"
  shows "fst (drain [] (send_queue self) (batch_size self)) =
           take (min (nat (batch_size self)) (length (send_queue self))) (rev (send_queue self)) \<and>
         sender_cycle self =
           (self\<lparr>send_queue :=
                   take (length (send_queue self) -
                         min (nat (batch_size self)) (length (send_queue self)))
                     (send_queue self)\<rparr>,
            if 0 < min (nat (batch_size self)) (length (send_queue self))
            then [join [CHR 0x0A]
                    (take (min (nat (batch_size self)) (length (send_queue self)))
                       (rev (send_queue self)))]
            else [])"
  using assms by (simp add: sender_cycle_def drain_nil batch_count_def)

theorem C6_sender_cycle_batch_witness:
  "sender_cycle ((init ''http://influx:8086'' ''openmotics'' 2)\<lparr>send_queue := [''C'', ''B'', ''A'']\<rparr>) =
     ((init ''http://influx:8086'' ''openmotics'' 2)\<lparr>send_queue := [''C'']\<rparr>,
      [''A'' @ [CHR 0x0A] @ ''B''])"
  using C6_sender_cycle_batch
          [of "(init ''http://influx:8086'' ''openmotics'' 2)\<lparr>send_queue := [''C'', ''B'', ''A'']\<rparr>"]
  by (simp add: init_def)

section \<open>Ingestion: the outcomes of a call\<close>

subsection \<open>Equality of values and agreement of tags\<close>

lemma py_eq_refl: "py_eq a a"
  by (cases a) (simp_all add: py_eq_def)

lemma py_eq_sym: "py_eq a b = py_eq b a"
  by (auto simp: py_eq_def split: option.splits)

lemma py_eq_trans: "py_eq a b \<Longrightarrow> py_eq b c \<Longrightarrow> py_eq a c"
  by (auto simp: py_eq_def split: option.splits)

lemma agree_refl: "agree ks a a"
  by (simp add: agree_def list_all_iff py_eq_refl)

lemma agree_sym: "agree ks a b = agree ks b a"
  by (simp add: agree_def py_eq_sym)

lemma agree_trans: "agree ks a b \<Longrightarrow> agree ks b c \<Longrightarrow> agree ks a c"
  by (auto simp: agree_def list_all_iff intro: py_eq_trans)

subsection \<open>The tags and the scan\<close>

text \<open>
  The tags built for a metric hold every tag of the definition, so \<^verbatim>\<open>tags[tag]\<close> in the
  scan never raises and \<^verbatim>\<open>this_one\<close> is the agreement of the two tag dictionaries on the
  definition's tags.
\<close>

lemma build_tags_keys:
  "build_tags m ks t0 = Inr t \<Longrightarrow> set ks \<union> fst ` set t0 \<subseteq> fst ` set t"
proof (induction ks arbitrary: t0)
  case Nil
  then show ?case by simp
next
  case (Cons k ks)
  from Cons.prems obtain v where v: "metric_getitem m k = Inr v"
    and r: "build_tags m ks (AList.update k (case v of PStr s \<Rightarrow> PStr (replace_space s) | _ \<Rightarrow> v) t0) = Inr t"
    by (auto split: sum.splits)
  from Cons.IH[OF r] show ?case by (auto simp: dom_update)
qed

lemma this_one_agree:
  "set ks \<subseteq> fst ` set tags \<Longrightarrow> this_one ks tags ptags = Inr (agree ks tags ptags)"
proof (induction ks)
  case Nil
  show ?case by (simp add: agree_def)
next
  case (Cons k ks)
  from Cons.prems obtain v where v: "map_of tags k = Some v"
    by (cases "map_of tags k") (auto simp: map_of_eq_None_iff)
  from Cons show ?case
    using v by (simp add: agree_def dict_getitem_def dict_get_def py_ne_def)
qed

lemma scan_pending_no_match:
  assumes "set dtags \<subseteq> fst ` set tags"
    and "\<forall>g\<in>set es. \<not> agree dtags tags (grp_tags g)"
  shows "scan_pending mt dtags tags ts name v es = Inr (False, None, es)"
  using assms(2) by (induction es) (simp_all add: this_one_agree[OF assms(1)])

lemma scan_pending_first_match:
  assumes "set dtags \<subseteq> fst ` set tags"
    and "\<forall>p\<in>set pre. \<not> agree dtags tags (grp_tags p)"
    and "agree dtags tags (grp_tags g)"
  shows "scan_pending mt dtags tags ts name v (pre @ g # post) =
     (if grp_timestamp g = ts
      then Inr (True, None, pre @ g\<lparr>grp_fields := AList.update name v (grp_fields g)\<rparr> # post)
      else case build_entry mt (grp_tags g) (Fields (grp_fields g)) (Some (grp_timestamp g)) of
             Inl e \<Rightarrow> Inl e
           | Inr data \<Rightarrow> Inr (False, Some data, pre @ post))"
  using assms(2,3)
  by (induction pre) (simp_all add: this_one_agree[OF assms(1)] split: sum.splits)

text \<open>
  \<^verbatim>\<open>entries.remove(pending)\<close> takes out the first group equal to the selected one; that
  is the selected group itself: the groups before it do not agree with the sample, the
  selected group does, so none of them is equal to it.
\<close>

lemma remove1_selected:
  assumes "\<forall>p\<in>set pre. \<not> agree ks tags (grp_tags p)" and "agree ks tags (grp_tags g)"
  shows "remove1 g (pre @ g # post) = pre @ post"
proof -
  from assms have "g \<notin> set pre" by blast
  then show ?thesis by (simp add: remove1_append)
qed

subsection \<open>Buckets\<close>

lemma bucket_set_bucket [simp]: "bucket (set_bucket self s t es) s t = es"
  by (simp add: bucket_def set_bucket_def by_type_of_def update_conv')

lemma bucket_set_bucket_other:
  "s' \<noteq> s \<or> t' \<noteq> t \<Longrightarrow> bucket (set_bucket self s t es) s' t' = bucket self s' t'"
  by (auto simp: bucket_def set_bucket_def by_type_of_def update_conv')

lemma set_bucket_twice [simp]:
  "set_bucket (set_bucket self s t es) s t es' = set_bucket self s t es'"
  by (simp add: set_bucket_def by_type_of_def update_conv')

lemma set_bucket_fields [simp]:
  "send_queue (set_bucket self s t es) = send_queue self"
  "enabled (set_bucket self s t es) = enabled self"
  "definitions (set_bucket self s t es) = definitions self"
  "batch_size (set_bucket self s t es) = batch_size self"
  by (simp_all add: set_bucket_def)

lemma set_bucket_send_queue:
  "(set_bucket self s t es)\<lparr>send_queue := q\<rparr> = set_bucket (self\<lparr>send_queue := q\<rparr>) s t es"
  by (simp add: set_bucket_def by_type_of_def)

lemma bucket_send_queue [simp]: "bucket (self\<lparr>send_queue := q\<rparr>) s t = bucket self s t"
  by (simp add: bucket_def by_type_of_def)

lemma set_bucket_same:
  assumes "bucket self s t \<noteq> []"
  shows "set_bucket self s t (bucket self s t) = self"
proof -
  from assms obtain bt where bt: "map_of (pending_metrics self) s = Some bt"
    by (cases "map_of (pending_metrics self) s") (auto simp: bucket_def by_type_of_def)
  with assms obtain es where es: "map_of bt t = Some es"
    by (cases "map_of bt t") (auto simp: bucket_def by_type_of_def)
  from bt es show ?thesis
    by (simp add: set_bucket_def bucket_def by_type_of_def update_triv)
qed


subsection \<open>The \<^verbatim>\<open>try\<close> block\<close>

lemma receive_try_scan:
  assumes "reaches_scan self m d tags"
  shows "receive_try self m =
     (case scan_pending (m_type m) (def_tags d) tags (m_timestamp m * 1000000000) (m_metric m)
             (encode_value (m_value m)) (bucket self (lower (m_source m)) (m_type m)) of
        Inl e \<Rightarrow>
          Inl (e, set_bucket self (lower (m_source m)) (m_type m)
                    (bucket self (lower (m_source m)) (m_type m)))
      | Inr (found, pushed, es') \<Rightarrow>
          Inr (set_bucket
                 (case pushed of
                    None \<Rightarrow> self
                  | Some data \<Rightarrow> self\<lparr>send_queue := appendleft data (send_queue self)\<rparr>)
                 (lower (m_source m)) (m_type m)
                 (if found then es' else es' @ [new_group m tags])))"
  using assms
  by (auto simp: reaches_scan_def receive_try_def Let_def new_group_def set_bucket_send_queue
      split: option.splits sum.splits)

lemma reaches_scan_keys:
  "reaches_scan self m d tags \<Longrightarrow> set (def_tags d) \<subseteq> fst ` set tags"
  using build_tags_keys[of m "def_tags d" "[(''type'', PStr (lower (m_source m)))]" tags]
  by (simp add: reaches_scan_def)

lemma receive_try_append:
  assumes "reaches_scan self m d tags"
    and "\<forall>g\<in>set (bucket self (lower (m_source m)) (m_type m)).
           \<not> agree (def_tags d) tags (grp_tags g)"
  shows "receive_try self m =
     Inr (set_bucket self (lower (m_source m)) (m_type m)
            (bucket self (lower (m_source m)) (m_type m) @ [new_group m tags]))"
  by (simp add: receive_try_scan[OF assms(1)]
      scan_pending_no_match[OF reaches_scan_keys[OF assms(1)] assms(2)])

lemma receive_try_merge:
  assumes "reaches_scan self m d tags"
    and "bucket self (lower (m_source m)) (m_type m) = pre @ g # post"
    and "\<forall>p\<in>set pre. \<not> agree (def_tags d) tags (grp_tags p)"
    and "agree (def_tags d) tags (grp_tags g)"
    and "grp_timestamp g = m_timestamp m * 1000000000"
  shows "receive_try self m =
     Inr (set_bucket self (lower (m_source m)) (m_type m) (pre @ merged m g # post))"
  using assms(5)
  by (simp add: receive_try_scan[OF assms(1)] assms(2) merged_def
      scan_pending_first_match[OF reaches_scan_keys[OF assms(1)] assms(3,4)])

lemma receive_try_close:
  assumes "reaches_scan self m d tags"
    and "bucket self (lower (m_source m)) (m_type m) = pre @ g # post"
    and "\<forall>p\<in>set pre. \<not> agree (def_tags d) tags (grp_tags p)"
    and "agree (def_tags d) tags (grp_tags g)"
    and "grp_timestamp g \<noteq> m_timestamp m * 1000000000"
    and "render (m_type m) g = Inr data"
  shows "receive_try self m =
     Inr (set_bucket (self\<lparr>send_queue := appendleft data (send_queue self)\<rparr>)
            (lower (m_source m)) (m_type m) (pre @ post @ [new_group m tags]))"
  using assms(5,6)
  by (simp add: receive_try_scan[OF assms(1)] assms(2) render_def
      scan_pending_first_match[OF reaches_scan_keys[OF assms(1)] assms(3,4)])

lemma receive_try_raise:
  assumes "reaches_scan self m d tags"
    and "bucket self (lower (m_source m)) (m_type m) = pre @ g # post"
    and "\<forall>p\<in>set pre. \<not> agree (def_tags d) tags (grp_tags p)"
    and "agree (def_tags d) tags (grp_tags g)"
    and "grp_timestamp g \<noteq> m_timestamp m * 1000000000"
    and "render (m_type m) g = Inl e"
  shows "receive_try self m = Inl (e, self)"
proof -
  have "bucket self (lower (m_source m)) (m_type m) \<noteq> []" using assms(2) by simp
  then have "set_bucket self (lower (m_source m)) (m_type m)
               (bucket self (lower (m_source m)) (m_type m)) = self"
    by (rule set_bucket_same)
  then have "set_bucket self (lower (m_source m)) (m_type m) (pre @ g # post) = self"
    by (simp add: assms(2))
  then show ?thesis
    using assms(5,6)
    by (simp add: receive_try_scan[OF assms(1)] assms(2) render_def
        scan_pending_first_match[OF reaches_scan_keys[OF assms(1)] assms(3,4)])
qed

lemma receive_try_not_reached:
  assumes "\<forall>d tags. \<not> reaches_scan self m d tags"
  shows "receive_try self m = Inr self \<or> (\<exists>k. receive_try self m = Inl (KeyError k, self))"
proof -
  have bt: "build_tags m ks t0 = Inl e \<Longrightarrow> \<exists>k. e = KeyError k" for ks t0 e
    by (induction ks arbitrary: t0)
       (auto simp: metric_getitem_def split: sum.splits if_splits option.splits)
  show ?thesis
    using assms bt
    by (fastforce simp: reaches_scan_def receive_try_def Let_def split: option.splits sum.splits)
qed

text \<open>The outcomes of the \<^verbatim>\<open>try\<close> block, all of them.\<close>

lemma receive_try_cases [case_names Drop Raise Append Merge Close]:
  obtains
    (Drop) "receive_try self m = Inr self"
  | (Raise) e where "receive_try self m = Inl (e, self)"
  | (Append) d tags where "reaches_scan self m d tags"
      and "\<forall>g\<in>set (bucket self (lower (m_source m)) (m_type m)).
             \<not> agree (def_tags d) tags (grp_tags g)"
      and "receive_try self m =
             Inr (set_bucket self (lower (m_source m)) (m_type m)
                    (bucket self (lower (m_source m)) (m_type m) @ [new_group m tags]))"
  | (Merge) d tags pre g post where "reaches_scan self m d tags"
      and "bucket self (lower (m_source m)) (m_type m) = pre @ g # post"
      and "\<forall>p\<in>set pre. \<not> agree (def_tags d) tags (grp_tags p)"
      and "agree (def_tags d) tags (grp_tags g)"
      and "grp_timestamp g = m_timestamp m * 1000000000"
      and "receive_try self m =
             Inr (set_bucket self (lower (m_source m)) (m_type m) (pre @ merged m g # post))"
  | (Close) d tags pre g post data where "reaches_scan self m d tags"
      and "bucket self (lower (m_source m)) (m_type m) = pre @ g # post"
      and "\<forall>p\<in>set pre. \<not> agree (def_tags d) tags (grp_tags p)"
      and "agree (def_tags d) tags (grp_tags g)"
      and "grp_timestamp g \<noteq> m_timestamp m * 1000000000"
      and "render (m_type m) g = Inr data"
      and "receive_try self m =
             Inr (set_bucket (self\<lparr>send_queue := appendleft data (send_queue self)\<rparr>)
                    (lower (m_source m)) (m_type m) (pre @ post @ [new_group m tags]))"
proof (cases "\<exists>d tags. reaches_scan self m d tags")
  case False
  then show ?thesis using receive_try_not_reached[of self m] Drop Raise by blast
next
  case True
  then obtain d tags where r: "reaches_scan self m d tags" by blast
  let ?es = "bucket self (lower (m_source m)) (m_type m)"
  show ?thesis
  proof (cases "\<exists>g\<in>set ?es. agree (def_tags d) tags (grp_tags g)")
    case False
    then have n: "\<forall>g\<in>set ?es. \<not> agree (def_tags d) tags (grp_tags g)" by blast
    from Append[OF r n receive_try_append[OF r n]] show ?thesis .
  next
    case True
    from split_list_first_prop[OF True]
    obtain pre g post where es: "?es = pre @ g # post"
      and g: "agree (def_tags d) tags (grp_tags g)"
      and pre: "\<forall>p\<in>set pre. \<not> agree (def_tags d) tags (grp_tags p)" by blast
    show ?thesis
    proof (cases "grp_timestamp g = m_timestamp m * 1000000000")
      case True
      from Merge[OF r es pre g True receive_try_merge[OF r es pre g True]] show ?thesis .
    next
      case False
      show ?thesis
      proof (cases "render (m_type m) g")
        case (Inl e)
        from Raise[OF receive_try_raise[OF r es pre g False Inl]] show ?thesis .
      next
        case (Inr data)
        from Close[OF r es pre g False Inr receive_try_close[OF r es pre g False Inr]]
        show ?thesis .
      qed
    qed
  qed
qed

subsection \<open>The handler\<close>

lemma isinstance_Exception_all [simp]: "isinstance_Exception e"
  by (cases e) simp_all

lemma receive_metric_data_eq:
  "receive_metric_data self m =
     (case receive_try self m of Inr s \<Rightarrow> Inr (s, []) | Inl (e, s) \<Rightarrow> Inr (s, [e]))"
  by (simp add: receive_metric_data_def split: sum.splits)

lemma ingest_eq:
  "ingest self m = (case receive_try self m of Inr s \<Rightarrow> s | Inl (e, s) \<Rightarrow> s)"
  by (simp add: ingest_def receive_metric_data_eq split: sum.splits)

lemma receive_try_Inl_state:
  assumes "receive_try self m = Inl (e, s)"
  shows "s = self"
  by (rule receive_try_cases[of self m]) (use assms in simp_all)

text \<open>
  Claim C7: a call of \<^verbatim>\<open>_receive_metric_data\<close> always returns to its caller, with no
  exception; when the plugin is disabled, the definitions are not loaded or the metric
  has no definition, it returns the state as it was (the same pending groups, the same
  queue) and logs nothing; and an exception raised in the \<^verbatim>\<open>try\<close> block is logged and
  leaves the state as it was: the sample is dropped.
\<close>

theorem C7_ingestion_never_raises:
  "(\<exists>self' logged. receive_metric_data self m = Inr (self', logged)) \<and>
   (\<not> enabled self \<or> definitions self = None \<or>
    (\<exists>defs. definitions self = Some defs \<and>
       lookup_definition defs (m_source m) (m_type m) (m_metric m) = None) \<longrightarrow>
    receive_metric_data self m = Inr (self, [])) \<and>
   (\<forall>e self'. receive_try self m = Inl (e, self') \<longrightarrow>
    receive_metric_data self m = Inr (self, [e]))"
proof (intro conjI allI impI)
  show "\<exists>self' logged. receive_metric_data self m = Inr (self', logged)"
    by (simp add: receive_metric_data_eq split: sum.splits)
next
  assume "\<not> enabled self \<or> definitions self = None \<or>
    (\<exists>defs. definitions self = Some defs \<and>
       lookup_definition defs (m_source m) (m_type m) (m_metric m) = None)"
  then have "receive_try self m = Inr self"
    by (auto simp: receive_try_def)
  then show "receive_metric_data self m = Inr (self, [])"
    by (simp add: receive_metric_data_eq)
next
  fix e self'
  assume a: "receive_try self m = Inl (e, self')"
  then have "self' = self" by (rule receive_try_Inl_state)
  with a show "receive_metric_data self m = Inr (self, [e])"
    by (simp add: receive_metric_data_eq)
qed

theorem C7_ingestion_never_raises_witness:
  "receive_metric_data (init [] ''openmotics'' 10) (example_metric ''power'' 1497677091 (PInt 1234)) =
     Inr (init [] ''openmotics'' 10, []) \<and>
   receive_metric_data (init ''http://influx:8086'' ''openmotics'' 10)
       (example_metric ''power'' 1497677091 (PInt 1234)) =
     Inr (init ''http://influx:8086'' ''openmotics'' 10, []) \<and>
   receive_metric_data example_start (example_metric ''current'' 1497677091 (PInt 3)) =
     Inr (example_start, []) \<and>
   receive_metric_data example_start
       ((example_metric ''power'' 1497677091 (PInt 1234))\<lparr>m_extra := [(''id'', PInt 0)]\<rparr>) =
     Inr (example_start, [KeyError ''device''])"
proof -
  let ?m = "example_metric ''power'' 1497677091 (PInt 1234)"
  have a: "\<not> enabled (init [] ''openmotics'' 10)" by (simp add: init_def)
  have b: "definitions (init ''http://influx:8086'' ''openmotics'' 10) = None"
    by (simp add: init_def)
  have c: "\<exists>defs. definitions example_start = Some defs \<and>
     lookup_definition defs (m_source (example_metric ''current'' 1497677091 (PInt 3)))
       (m_type (example_metric ''current'' 1497677091 (PInt 3)))
       (m_metric (example_metric ''current'' 1497677091 (PInt 3))) = None"
    by (simp add: example_start_def load_definitions_def init_def example_definitions_def
        example_metric_def lookup_definition_def)
  have d: "receive_try example_start (?m\<lparr>m_extra := [(''id'', PInt 0)]\<rparr>) =
     Inl (KeyError ''device'', example_start)"
    by code_simp
  from a C7_ingestion_never_raises[of "init [] ''openmotics'' 10" ?m]
  have 1: "receive_metric_data (init [] ''openmotics'' 10) ?m = Inr (init [] ''openmotics'' 10, [])"
    by blast
  from b C7_ingestion_never_raises[of "init ''http://influx:8086'' ''openmotics'' 10" ?m]
  have 2: "receive_metric_data (init ''http://influx:8086'' ''openmotics'' 10) ?m =
     Inr (init ''http://influx:8086'' ''openmotics'' 10, [])"
    by blast
  from c C7_ingestion_never_raises[of example_start "example_metric ''current'' 1497677091 (PInt 3)"]
  have 3: "receive_metric_data example_start (example_metric ''current'' 1497677091 (PInt 3)) =
     Inr (example_start, [])"
    by blast
  from d C7_ingestion_never_raises[of example_start "?m\<lparr>m_extra := [(''id'', PInt 0)]\<rparr>"]
  have 4: "receive_metric_data example_start (?m\<lparr>m_extra := [(''id'', PInt 0)]\<rparr>) =
     Inr (example_start, [KeyError ''device''])"
    by blast
  from 1 2 3 4 show ?thesis by blast
qed

text \<open>
  With no url or no database the plugin is disabled from the start, and any number of
  metrics leaves the queue empty.
\<close>

lemma disabled_mode:
  "url = [] \<or> database = [] \<Longrightarrow> foldl ingest (init url database bs) ms = init url database bs"
proof (induction ms)
  case Nil
  show ?case by simp
next
  case (Cons m ms)
  from Cons.prems have "receive_try (init url database bs) m = Inr (init url database bs)"
    by (auto simp: receive_try_def init_def)
  then have "ingest (init url database bs) m = init url database bs"
    by (simp add: ingest_eq)
  with Cons show ?case by simp
qed

section \<open>Agreement on the definition's tags and equality of the tag sets\<close>

text \<open>
  Two tag dictionaries built in one bucket from definitions with the same tag list have
  the same keys and the same \<^verbatim>\<open>type\<close>: they agree on the definition's tags exactly when
  they are equal as dictionaries.
\<close>

lemma map_fst_update:
  "map fst (AList.update k v al) = (if k \<in> fst ` set al then map fst al else map fst al @ [k])"
  by (induction al) auto

lemma build_tags_map_fst:
  assumes "build_tags m ks t0 = Inr t" and "build_tags m' ks t0' = Inr t'"
    and "map fst t0 = map fst t0'"
  shows "map fst t = map fst t'"
  using assms
proof (induction ks arbitrary: t0 t0')
  case Nil
  then show ?case by simp
next
  case (Cons k ks)
  from Cons.prems(1) obtain v where
    r: "build_tags m ks (AList.update k (case v of PStr s \<Rightarrow> PStr (replace_space s) | _ \<Rightarrow> v) t0) = Inr t"
    by (auto split: sum.splits)
  from Cons.prems(2) obtain v' where
    r': "build_tags m' ks (AList.update k (case v' of PStr s \<Rightarrow> PStr (replace_space s) | _ \<Rightarrow> v') t0') = Inr t'"
    by (auto split: sum.splits)
  have "fst ` set t0 = fst ` set t0'"
    using Cons.prems(3) by (metis list.set_map)
  with Cons.prems(3) have "map fst (AList.update k (case v of PStr s \<Rightarrow> PStr (replace_space s) | _ \<Rightarrow> v) t0) =
      map fst (AList.update k (case v' of PStr s \<Rightarrow> PStr (replace_space s) | _ \<Rightarrow> v') t0')"
    by (simp add: map_fst_update)
  from Cons.IH[OF r r' this] show ?case .
qed

lemma build_tags_other_key:
  "build_tags m ks t0 = Inr t \<Longrightarrow> k \<notin> set ks \<Longrightarrow> map_of t k = map_of t0 k"
proof (induction ks arbitrary: t0)
  case Nil
  then show ?case by simp
next
  case (Cons a ks)
  from Cons.prems(1) obtain v where
    r: "build_tags m ks (AList.update a (case v of PStr s \<Rightarrow> PStr (replace_space s) | _ \<Rightarrow> v) t0) = Inr t"
    by (auto split: sum.splits)
  from Cons.IH[OF r] Cons.prems(2) show ?case by (simp add: update_conv')
qed

lemma agree_iff_dict_eq:
  assumes a: "built_tags s ks a" and b: "built_tags s ks b"
  shows "agree ks a b = dict_eq a b"
proof -
  from a obtain m where m: "build_tags m ks [(''type'', PStr s)] = Inr a"
    by (auto simp: built_tags_def)
  from b obtain m' where m': "build_tags m' ks [(''type'', PStr s)] = Inr b"
    by (auto simp: built_tags_def)
  from build_tags_map_fst[OF m m'] have keys: "map fst a = map fst b" by simp
  from build_tags_keys[OF m] have sub: "set ks \<subseteq> set (map fst a)" by simp
  have ty: "py_eq (dict_get a ''type'') (dict_get b ''type'')" if "''type'' \<notin> set ks"
    using build_tags_other_key[OF m that] build_tags_other_key[OF m' that]
    by (simp add: dict_get_def py_eq_refl)
  have only: "k \<in> set ks \<or> k = ''type''" if "k \<in> set (map fst a)" for k
  proof (rule ccontr)
    assume "\<not> (k \<in> set ks \<or> k = ''type'')"
    then have "k \<notin> set ks" "k \<noteq> ''type''" by simp_all
    with build_tags_other_key[OF m, of k] have "map_of a k = None" by simp
    with that show False by (simp add: map_of_eq_None_iff)
  qed
  show ?thesis
  proof
    assume ag: "agree ks a b"
    have "py_eq (dict_get a k) (dict_get b k)" if "k \<in> set (map fst a)" for k
    proof (cases "k \<in> set ks")
      case True
      with ag show ?thesis by (simp add: agree_def list_all_iff)
    next
      case False
      with only[OF that] have "k = ''type''" by simp
      with False ty show ?thesis by simp
    qed
    with keys show "dict_eq a b" unfolding dict_eq_def list_all_iff by simp
  next
    assume de: "dict_eq a b"
    have "py_eq (dict_get a k) (dict_get b k)" if "k \<in> set ks" for k
    proof -
      from that sub have "k \<in> set (map fst a)" by blast
      with de show ?thesis unfolding dict_eq_def list_all_iff by blast
    qed
    then show "agree ks a b" by (simp add: agree_def list_all_iff)
  qed
qed

lemma built_tags_reaches_scan:
  "reaches_scan self m d tags \<Longrightarrow> built_tags (lower (m_source m)) (def_tags d) tags"
  by (auto simp: reaches_scan_def built_tags_def)

section \<open>Which group a sample selects\<close>

text \<open>
  Claim C1, as stated, on the example: a \<^verbatim>\<open>power\<close> sample opens a group tagged by type,
  device and id; a \<^verbatim>\<open>frequency\<close> sample of the same second has the tags type and id, a
  different tag set, and yet it is merged into that group, because the scan compares
  the tags of the sample's definition only (here the id).
\<close>

theorem C1_other_tagset_merged_counterexample:
  "bucket (ingest example_start (example_metric ''power'' 1497677091 (PInt 1234)))
       ''openmotics'' ''energy'' =
     [\<lparr>grp_timestamp = 1497677091000000000,
       grp_tags = [(''type'', PStr ''openmotics''), (''device'', PStr ''ID1''), (''id'', PInt 0)],
       grp_fields = [(''power'', PStr ''1234i'')]\<rparr>] \<and>
   build_tags (example_metric ''frequency'' 1497677091 (PInt 50)) [''id'']
       [(''type'', PStr ''openmotics'')] =
     Inr [(''type'', PStr ''openmotics''), (''id'', PInt 0)] \<and>
   [(''type'', PStr ''openmotics''), (''id'', PInt 0)] \<noteq>
     [(''type'', PStr ''openmotics''), (''device'', PStr ''ID1''), (''id'', PInt 0)] \<and>
   bucket (ingest (ingest example_start (example_metric ''power'' 1497677091 (PInt 1234)))
             (example_metric ''frequency'' 1497677091 (PInt 50)))
       ''openmotics'' ''energy'' =
     [\<lparr>grp_timestamp = 1497677091000000000,
       grp_tags = [(''type'', PStr ''openmotics''), (''device'', PStr ''ID1''), (''id'', PInt 0)],
       grp_fields = [(''power'', PStr ''1234i''), (''frequency'', PStr ''50i'')]\<rparr>]"
  by code_simp

text \<open>
  Claim C1, amended: for a sample that gets as far as the scan, the scan goes through
  the open groups of the bucket in insertion order and selects the first group that
  agrees with the sample on every tag of the sample's definition (\<^verbatim>\<open>this_one\<close> is that
  agreement): the sample is merged into that group when the timestamps are equal, and
  closes it otherwise (unless rendering it raises); with no such group the sample is
  appended as a new group.  A group that disagrees with the sample on a tag of the
  definition is in the bucket after the call as it was before.  When the tags of every
  open group of the bucket were built with the tag list of the sample's definition (as
  they are when all definitions of the bucket have the same tag list), the groups that
  agree with the sample are those whose tag set equals the sample's.
\<close>

theorem C1_first_agreeing_group_selected:
  assumes "reaches_scan self m d tags"
  shows "(\<forall>g::group. this_one (def_tags d) tags (grp_tags g) =
              Inr (agree (def_tags d) tags (grp_tags g))) \<and>
    (\<forall>pre g post.
        bucket self (lower (m_source m)) (m_type m) = pre @ g # post \<and>
        (\<forall>p\<in>set pre. \<not> agree (def_tags d) tags (grp_tags p)) \<and>
        agree (def_tags d) tags (grp_tags g) \<longrightarrow>
        receive_try self m =
          (if grp_timestamp g = m_timestamp m * 1000000000
           then Inr (set_bucket self (lower (m_source m)) (m_type m) (pre @ merged m g # post))
           else case render (m_type m) g of
                  Inl e \<Rightarrow> Inl (e, self)
                | Inr data \<Rightarrow>
                    Inr (set_bucket (self\<lparr>send_queue := appendleft data (send_queue self)\<rparr>)
                           (lower (m_source m)) (m_type m)
                           (pre @ post @ [new_group m tags])))) \<and>
    ((\<forall>g\<in>set (bucket self (lower (m_source m)) (m_type m)).
         \<not> agree (def_tags d) tags (grp_tags g)) \<longrightarrow>
     receive_try self m =
       Inr (set_bucket self (lower (m_source m)) (m_type m)
              (bucket self (lower (m_source m)) (m_type m) @ [new_group m tags]))) \<and>
    (\<forall>g\<in>set (bucket self (lower (m_source m)) (m_type m)).
        \<not> agree (def_tags d) tags (grp_tags g) \<longrightarrow>
        g \<in> set (bucket (ingest self m) (lower (m_source m)) (m_type m))) \<and>
    ((\<forall>g\<in>set (bucket self (lower (m_source m)) (m_type m)).
         built_tags (lower (m_source m)) (def_tags d) (grp_tags g)) \<longrightarrow>
     (\<forall>g\<in>set (bucket self (lower (m_source m)) (m_type m)).
         agree (def_tags d) tags (grp_tags g) = dict_eq tags (grp_tags g)))"
proof (intro conjI allI impI ballI)
  fix g
  assume "\<forall>g\<in>set (bucket self (lower (m_source m)) (m_type m)).
         built_tags (lower (m_source m)) (def_tags d) (grp_tags g)"
    and "g \<in> set (bucket self (lower (m_source m)) (m_type m))"
  then have "built_tags (lower (m_source m)) (def_tags d) (grp_tags g)" by blast
  with built_tags_reaches_scan[OF assms]
  show "agree (def_tags d) tags (grp_tags g) = dict_eq tags (grp_tags g)"
    by (rule agree_iff_dict_eq)
next
  fix g :: group
  show "this_one (def_tags d) tags (grp_tags g) = Inr (agree (def_tags d) tags (grp_tags g))"
    by (rule this_one_agree[OF reaches_scan_keys[OF assms]])
next
  fix pre g post
  assume a: "bucket self (lower (m_source m)) (m_type m) = pre @ g # post \<and>
        (\<forall>p\<in>set pre. \<not> agree (def_tags d) tags (grp_tags p)) \<and>
        agree (def_tags d) tags (grp_tags g)"
  then have es: "bucket self (lower (m_source m)) (m_type m) = pre @ g # post"
    and pre: "\<forall>p\<in>set pre. \<not> agree (def_tags d) tags (grp_tags p)"
    and g: "agree (def_tags d) tags (grp_tags g)" by blast+
  show "receive_try self m =
          (if grp_timestamp g = m_timestamp m * 1000000000
           then Inr (set_bucket self (lower (m_source m)) (m_type m) (pre @ merged m g # post))
           else case render (m_type m) g of
                  Inl e \<Rightarrow> Inl (e, self)
                | Inr data \<Rightarrow>
                    Inr (set_bucket (self\<lparr>send_queue := appendleft data (send_queue self)\<rparr>)
                           (lower (m_source m)) (m_type m)
                           (pre @ post @ [new_group m tags])))"
  proof (cases "grp_timestamp g = m_timestamp m * 1000000000")
    case True
    with receive_try_merge[OF assms es pre g] show ?thesis by simp
  next
    case False
    show ?thesis
    proof (cases "render (m_type m) g")
      case (Inl e)
      with receive_try_raise[OF assms es pre g False] False show ?thesis by simp
    next
      case (Inr data)
      with receive_try_close[OF assms es pre g False] False show ?thesis by simp
    qed
  qed
next
  assume "\<forall>g\<in>set (bucket self (lower (m_source m)) (m_type m)).
         \<not> agree (def_tags d) tags (grp_tags g)"
  then show "receive_try self m =
       Inr (set_bucket self (lower (m_source m)) (m_type m)
              (bucket self (lower (m_source m)) (m_type m) @ [new_group m tags]))"
    by (rule receive_try_append[OF assms])
next
  fix g
  assume gin: "g \<in> set (bucket self (lower (m_source m)) (m_type m))"
    and gn: "\<not> agree (def_tags d) tags (grp_tags g)"
  show "g \<in> set (bucket (ingest self m) (lower (m_source m)) (m_type m))"
  proof (rule receive_try_cases[of self m])
    assume "receive_try self m = Inr self"
    with gin show ?thesis by (simp add: ingest_eq)
  next
    fix e assume "receive_try self m = Inl (e, self)"
    with gin show ?thesis by (simp add: ingest_eq)
  next
    fix d' tags'
    assume "receive_try self m =
             Inr (set_bucket self (lower (m_source m)) (m_type m)
                    (bucket self (lower (m_source m)) (m_type m) @ [new_group m tags']))"
    with gin show ?thesis by (simp add: ingest_eq)
  next
    fix d' tags' pre g' post
    assume r: "reaches_scan self m d' tags'"
      and es: "bucket self (lower (m_source m)) (m_type m) = pre @ g' # post"
      and g': "agree (def_tags d') tags' (grp_tags g')"
      and rt: "receive_try self m =
             Inr (set_bucket self (lower (m_source m)) (m_type m) (pre @ merged m g' # post))"
    from r assms have "d' = d" "tags' = tags"
      by (auto simp: reaches_scan_def split: option.splits)
    with g' gn have "g \<noteq> g'" by auto
    with gin es rt show ?thesis by (auto simp: ingest_eq)
  next
    fix d' tags' pre g' post data
    assume r: "reaches_scan self m d' tags'"
      and es: "bucket self (lower (m_source m)) (m_type m) = pre @ g' # post"
      and g': "agree (def_tags d') tags' (grp_tags g')"
      and rt: "receive_try self m =
             Inr (set_bucket (self\<lparr>send_queue := appendleft data (send_queue self)\<rparr>)
                    (lower (m_source m)) (m_type m) (pre @ post @ [new_group m tags']))"
    from r assms have "d' = d" "tags' = tags"
      by (auto simp: reaches_scan_def split: option.splits)
    with g' gn have "g \<noteq> g'" by auto
    with gin es rt show ?thesis by (auto simp: ingest_eq)
  qed
qed

theorem C1_first_agreeing_group_selected_witness:
  "reaches_scan (ingest example_start (example_metric ''power'' 1497677091 (PInt 1234)))
     (example_metric ''frequency'' 1497677091 (PInt 50)) \<lparr>def_tags = [''id'']\<rparr>
     [(''type'', PStr ''openmotics''), (''id'', PInt 0)] \<and>
   agree [''id''] [(''type'', PStr ''openmotics''), (''id'', PInt 0)]
     [(''type'', PStr ''openmotics''), (''device'', PStr ''ID1''), (''id'', PInt 0)] \<and>
   receive_try (ingest example_start (example_metric ''power'' 1497677091 (PInt 1234)))
       (example_metric ''frequency'' 1497677091 (PInt 50)) =
     Inr (set_bucket (ingest example_start (example_metric ''power'' 1497677091 (PInt 1234)))
            ''openmotics'' ''energy''
            [merged (example_metric ''frequency'' 1497677091 (PInt 50))
               \<lparr>grp_timestamp = 1497677091000000000,
                grp_tags = [(''type'', PStr ''openmotics''), (''device'', PStr ''ID1''),
                            (''id'', PInt 0)],
                grp_fields = [(''power'', PStr ''1234i'')]\<rparr>])"
proof -
  let ?s = "ingest example_start (example_metric ''power'' 1497677091 (PInt 1234))"
  let ?m = "example_metric ''frequency'' 1497677091 (PInt 50)"
  let ?t = "[(''type'', PStr ''openmotics''), (''id'', PInt 0)]"
  let ?g = "\<lparr>grp_timestamp = 1497677091000000000,
             grp_tags = [(''type'', PStr ''openmotics''), (''device'', PStr ''ID1''),
                         (''id'', PInt 0)],
             grp_fields = [(''power'', PStr ''1234i'')]\<rparr>"
  let ?d = "\<lparr>def_tags = [''id'']\<rparr>"
  have r: "reaches_scan ?s ?m ?d ?t" by code_simp
  have a: "agree [''id''] ?t (grp_tags ?g)" by code_simp
  then have a': "agree (def_tags ?d) ?t (grp_tags ?g)" by simp
  have b: "bucket ?s (lower (m_source ?m)) (m_type ?m) = [] @ ?g # []" by code_simp
  have pre: "\<forall>p\<in>set []. \<not> agree (def_tags ?d) ?t (grp_tags p)" by simp
  have ts: "grp_timestamp ?g = m_timestamp ?m * 1000000000" by code_simp
  have l: "lower (m_source ?m) = ''openmotics''" "m_type ?m = ''energy''" by code_simp+
  note sel = C1_first_agreeing_group_selected[OF r, THEN conjunct2, THEN conjunct1,
      rule_format, of "[]" ?g "[]"]
  have "receive_try ?s ?m =
          (if grp_timestamp ?g = m_timestamp ?m * 1000000000
           then Inr (set_bucket ?s (lower (m_source ?m)) (m_type ?m) ([] @ merged ?m ?g # []))
           else case render (m_type ?m) ?g of
                  Inl e \<Rightarrow> Inl (e, ?s)
                | Inr data \<Rightarrow>
                    Inr (set_bucket (?s\<lparr>send_queue := appendleft data (send_queue ?s)\<rparr>)
                           (lower (m_source ?m)) (m_type ?m)
                           ([] @ [] @ [new_group ?m ?t])))"
    by (rule sel[OF conjI[OF b conjI[OF pre a']]])
  with ts l have "receive_try ?s ?m = Inr (set_bucket ?s ''openmotics'' ''energy'' [merged ?m ?g])"
    by simp
  with r a show ?thesis by simp
qed

section \<open>A metric name that the group already has\<close>

lemma update_keys_present:
  "k \<in> fst ` set al \<Longrightarrow> map fst (AList.update k v al) = map fst al"
  by (induction al) auto

text \<open>
  Claim C10, as stated, on the example: after a \<^verbatim>\<open>frequency\<close>, a \<^verbatim>\<open>power\<close> and another
  \<^verbatim>\<open>frequency\<close> sample the bucket holds a \<^verbatim>\<open>power\<close> group of second 1 and a \<^verbatim>\<open>frequency\<close>
  group of second 2.  A further \<^verbatim>\<open>frequency\<close> sample of second 2 has the source, family,
  tag set and timestamp of that second group, which has the name \<^verbatim>\<open>frequency\<close>; yet its
  value is not overwritten: the scan stops at the \<^verbatim>\<open>power\<close> group, which agrees on the
  id, closes it (an entry is queued) and appends a second group for the same tag set
  and timestamp.
\<close>

theorem C10_value_not_overwritten_counterexample:
  "bucket (ingest (ingest (ingest example_start
             (example_metric ''frequency'' 1 (PInt 50)))
             (example_metric ''power'' 1 (PInt 1234)))
             (example_metric ''frequency'' 2 (PInt 51)))
       ''openmotics'' ''energy'' =
     [\<lparr>grp_timestamp = 1000000000,
       grp_tags = [(''type'', PStr ''openmotics''), (''device'', PStr ''ID1''), (''id'', PInt 0)],
       grp_fields = [(''power'', PStr ''1234i'')]\<rparr>,
      \<lparr>grp_timestamp = 2000000000,
       grp_tags = [(''type'', PStr ''openmotics''), (''id'', PInt 0)],
       grp_fields = [(''frequency'', PStr ''51i'')]\<rparr>] \<and>
   bucket (ingest (ingest (ingest (ingest example_start
             (example_metric ''frequency'' 1 (PInt 50)))
             (example_metric ''power'' 1 (PInt 1234)))
             (example_metric ''frequency'' 2 (PInt 51)))
             (example_metric ''frequency'' 2 (PInt 52)))
       ''openmotics'' ''energy'' =
     [\<lparr>grp_timestamp = 2000000000,
       grp_tags = [(''type'', PStr ''openmotics''), (''id'', PInt 0)],
       grp_fields = [(''frequency'', PStr ''51i'')]\<rparr>,
      \<lparr>grp_timestamp = 2000000000,
       grp_tags = [(''type'', PStr ''openmotics''), (''id'', PInt 0)],
       grp_fields = [(''frequency'', PStr ''52i'')]\<rparr>] \<and>
   send_queue (ingest (ingest (ingest (ingest example_start
             (example_metric ''frequency'' 1 (PInt 50)))
             (example_metric ''power'' 1 (PInt 1234)))
             (example_metric ''frequency'' 2 (PInt 51)))
             (example_metric ''frequency'' 2 (PInt 52))) =
     [''energy,type=openmotics,device=ID1,id=0 power=1234i 1000000000'',
      ''energy,type=openmotics,id=0 frequency=50i 1000000000'']"
  by code_simp

text \<open>
  Claim C10, amended: when the group the scan selects for a sample (the first open group
  of the bucket that agrees with the sample on the tags of its definition) has the
  sample's timestamp and already has the sample's metric name among its fields, the call
  returns with nothing logged, the new encoded value is stored under that name in place
  of the old one, the other fields, the field names and their order, the other groups
  and the queue are as they were.
\<close>

theorem C10_last_write_wins:
  assumes "reaches_scan self m d tags"
    and "bucket self (lower (m_source m)) (m_type m) = pre @ g # post"
    and "\<forall>p\<in>set pre. \<not> agree (def_tags d) tags (grp_tags p)"
    and "agree (def_tags d) tags (grp_tags g)"
    and "grp_timestamp g = m_timestamp m * 1000000000"
    and "m_metric m \<in> fst ` set (grp_fields g)"
  shows "receive_metric_data self m =
           Inr (set_bucket self (lower (m_source m)) (m_type m) (pre @ merged m g # post), []) \<and>
         bucket (ingest self m) (lower (m_source m)) (m_type m) = pre @ merged m g # post \<and>
         send_queue (ingest self m) = send_queue self \<and>
         map_of (grp_fields (merged m g)) (m_metric m) = Some (encode_value (m_value m)) \<and>
         (\<forall>k. k \<noteq> m_metric m \<longrightarrow>
              map_of (grp_fields (merged m g)) k = map_of (grp_fields g) k) \<and>
         map fst (grp_fields (merged m g)) = map fst (grp_fields g) \<and>
         grp_timestamp (merged m g) = grp_timestamp g \<and>
         grp_tags (merged m g) = grp_tags g"
proof -
  from receive_try_merge[OF assms(1-5)]
  have rt: "receive_try self m =
     Inr (set_bucket self (lower (m_source m)) (m_type m) (pre @ merged m g # post))" .
  then show ?thesis
    using assms(6)
    by (simp add: receive_metric_data_eq ingest_eq merged_def update_conv'
        update_keys_present)
qed

theorem C10_last_write_wins_witness:
  "receive_metric_data (ingest example_start (example_metric ''power'' 1497677091 (PInt 1234)))
       (example_metric ''power'' 1497677091 (PInt 1250)) =
     Inr (set_bucket (ingest example_start (example_metric ''power'' 1497677091 (PInt 1234)))
            ''openmotics'' ''energy''
            [\<lparr>grp_timestamp = 1497677091000000000,
              grp_tags = [(''type'', PStr ''openmotics''), (''device'', PStr ''ID1''),
                          (''id'', PInt 0)],
              grp_fields = [(''power'', PStr ''1250i'')]\<rparr>], []) \<and>
   send_queue (ingest (ingest example_start (example_metric ''power'' 1497677091 (PInt 1234)))
       (example_metric ''power'' 1497677091 (PInt 1250))) = []"
proof -
  let ?s = "ingest example_start (example_metric ''power'' 1497677091 (PInt 1234))"
  let ?m = "example_metric ''power'' 1497677091 (PInt 1250)"
  let ?t = "[(''type'', PStr ''openmotics''), (''device'', PStr ''ID1''), (''id'', PInt 0)]"
  let ?g = "\<lparr>grp_timestamp = 1497677091000000000, grp_tags = ?t,
             grp_fields = [(''power'', PStr ''1234i'')]\<rparr>"
  let ?d = "\<lparr>def_tags = [''device'', ''id'']\<rparr>"
  have r: "reaches_scan ?s ?m ?d ?t" by code_simp
  have b: "bucket ?s (lower (m_source ?m)) (m_type ?m) = [] @ ?g # []" by code_simp
  have pre: "\<forall>p\<in>set []. \<not> agree (def_tags ?d) ?t (grp_tags p)" by simp
  have a: "agree (def_tags ?d) ?t (grp_tags ?g)" by code_simp
  have ts: "grp_timestamp ?g = m_timestamp ?m * 1000000000" by code_simp
  have n: "m_metric ?m \<in> fst ` set (grp_fields ?g)" by (simp add: example_metric_def)
  have l: "lower (m_source ?m) = ''openmotics''" "m_type ?m = ''energy''" by code_simp+
  have mg: "merged ?m ?g = \<lparr>grp_timestamp = 1497677091000000000, grp_tags = ?t,
             grp_fields = [(''power'', PStr ''1250i'')]\<rparr>" by code_simp
  have q: "send_queue ?s = []" by code_simp
  from C10_last_write_wins[OF r b pre a ts n] l mg q show ?thesis by simp
qed

section \<open>One sample: at most one close, a merge or a new group\<close>

lemma ingest_enabled [simp]: "enabled (ingest self m) = enabled self"
  by (rule receive_try_cases[of self m]) (simp_all add: ingest_eq)

lemma ingest_definitions [simp]: "definitions (ingest self m) = definitions self"
  by (rule receive_try_cases[of self m]) (simp_all add: ingest_eq)

lemma ingest_batch_size [simp]: "batch_size (ingest self m) = batch_size self"
  by (rule receive_try_cases[of self m]) (simp_all add: ingest_eq)

lemma reaches_scan_ingest [simp]:
  "reaches_scan (ingest self m) m2 d tags = reaches_scan self m2 d tags"
  by (simp add: reaches_scan_def)

lemma reaches_scan_unique:
  "reaches_scan self m d tags \<Longrightarrow> reaches_scan self m d' tags' \<Longrightarrow> d' = d \<and> tags' = tags"
  by (auto simp: reaches_scan_def split: option.splits)

lemma float_of_int_Inl: "float_of_int n = Inl e \<Longrightarrow> e = OverflowError"
  by (auto simp: float_of_int_def Let_def split: if_splits)

lemma render_ok:
  assumes "float_of_int (grp_timestamp g) \<noteq> Inl OverflowError"
  shows "\<exists>data. render t g = Inr data"
proof (cases "float_of_int (grp_timestamp g)")
  case (Inl e)
  with assms float_of_int_Inl[OF Inl] show ?thesis by simp
next
  case (Inr x)
  then show ?thesis by (simp add: render_def build_entry_def format_0f_def)
qed

lemma only_one_agreeing:
  assumes "length (filter P (pre @ g # post)) \<le> 1" and "P g"
  shows "\<forall>p\<in>set pre \<union> set post. \<not> P p"
proof -
  from assms have "length (filter P pre) + length (filter P post) = 0" by simp
  then have "filter P pre = []" "filter P post = []" by simp_all
  then show ?thesis by (auto simp: filter_empty_conv)
qed

text \<open>What one call does to the sample's bucket and to the queue.\<close>

lemma ingest_outcome:
  "(bucket (ingest self m) (lower (m_source m)) (m_type m) =
      bucket self (lower (m_source m)) (m_type m) \<and>
    send_queue (ingest self m) = send_queue self) \<or>
   (\<exists>pre g post.
      bucket self (lower (m_source m)) (m_type m) = pre @ g # post \<and>
      grp_timestamp g = m_timestamp m * 1000000000 \<and>
      bucket (ingest self m) (lower (m_source m)) (m_type m) = pre @ merged m g # post \<and>
      send_queue (ingest self m) = send_queue self) \<or>
   (\<exists>tags.
      bucket (ingest self m) (lower (m_source m)) (m_type m) =
        bucket self (lower (m_source m)) (m_type m) @ [new_group m tags] \<and>
      send_queue (ingest self m) = send_queue self) \<or>
   (\<exists>tags pre g post data.
      bucket self (lower (m_source m)) (m_type m) = pre @ g # post \<and>
      grp_timestamp g \<noteq> m_timestamp m * 1000000000 \<and>
      render (m_type m) g = Inr data \<and>
      bucket (ingest self m) (lower (m_source m)) (m_type m) =
        pre @ post @ [new_group m tags] \<and>
      send_queue (ingest self m) = appendleft data (send_queue self))"
proof (rule receive_try_cases[of self m])
  assume "receive_try self m = Inr self"
  then show ?thesis by (simp add: ingest_eq)
next
  fix e assume "receive_try self m = Inl (e, self)"
  then show ?thesis by (simp add: ingest_eq)
next
  fix d tags
  assume "receive_try self m =
             Inr (set_bucket self (lower (m_source m)) (m_type m)
                    (bucket self (lower (m_source m)) (m_type m) @ [new_group m tags]))"
  then have "bucket (ingest self m) (lower (m_source m)) (m_type m) =
        bucket self (lower (m_source m)) (m_type m) @ [new_group m tags] \<and>
      send_queue (ingest self m) = send_queue self"
    by (simp add: ingest_eq)
  then show ?thesis by blast
next
  fix d tags pre g post
  assume "bucket self (lower (m_source m)) (m_type m) = pre @ g # post"
    and "grp_timestamp g = m_timestamp m * 1000000000"
    and "receive_try self m =
             Inr (set_bucket self (lower (m_source m)) (m_type m) (pre @ merged m g # post))"
  then have "bucket self (lower (m_source m)) (m_type m) = pre @ g # post \<and>
      grp_timestamp g = m_timestamp m * 1000000000 \<and>
      bucket (ingest self m) (lower (m_source m)) (m_type m) = pre @ merged m g # post \<and>
      send_queue (ingest self m) = send_queue self"
    by (simp add: ingest_eq)
  then show ?thesis by blast
next
  fix d tags pre g post data
  assume "bucket self (lower (m_source m)) (m_type m) = pre @ g # post"
    and "grp_timestamp g \<noteq> m_timestamp m * 1000000000"
    and "render (m_type m) g = Inr data"
    and "receive_try self m =
             Inr (set_bucket (self\<lparr>send_queue := appendleft data (send_queue self)\<rparr>)
                    (lower (m_source m)) (m_type m) (pre @ post @ [new_group m tags]))"
  then have "bucket self (lower (m_source m)) (m_type m) = pre @ g # post \<and>
      grp_timestamp g \<noteq> m_timestamp m * 1000000000 \<and>
      render (m_type m) g = Inr data \<and>
      bucket (ingest self m) (lower (m_source m)) (m_type m) =
        pre @ post @ [new_group m tags] \<and>
      send_queue (ingest self m) = appendleft data (send_queue self)"
    by (simp add: ingest_eq)
  then show ?thesis by blast
qed

text \<open>
  Two samples of one identity, one after the other, when at most one open group agrees
  with them and the timestamps can be rendered.
\<close>

lemma flush_on_timestamp_change:
  assumes r: "reaches_scan self m d tags"
    and r2: "reaches_scan self m2 d tags"
    and src: "lower (m_source m2) = lower (m_source m)"
    and mty: "m_type m2 = m_type m"
    and ts: "m_timestamp m2 \<noteq> m_timestamp m"
    and one: "length (filter (\<lambda>g. agree (def_tags d) tags (grp_tags g))
                (bucket self (lower (m_source m)) (m_type m))) \<le> 1"
    and ok: "\<forall>g\<in>set (bucket self (lower (m_source m)) (m_type m)).
               float_of_int (grp_timestamp g) \<noteq> Inl OverflowError"
    and ok1: "float_of_int (m_timestamp m * 1000000000) \<noteq> Inl OverflowError"
  shows "\<exists>pre g1 post data.
      bucket (ingest self m) (lower (m_source m)) (m_type m) = pre @ g1 # post \<and>
      grp_timestamp g1 = m_timestamp m * 1000000000 \<and>
      map_of (grp_fields g1) (m_metric m) = Some (encode_value (m_value m)) \<and>
      render (m_type m) g1 = Inr data \<and>
      send_queue (ingest (ingest self m) m2) = appendleft data (send_queue (ingest self m)) \<and>
      bucket (ingest (ingest self m) m2) (lower (m_source m)) (m_type m) =
        pre @ post @ [new_group m2 tags]"
proof -
  let ?s = "lower (m_source m)" and ?t = "m_type m"
  let ?es = "bucket self ?s ?t"
  let ?P = "\<lambda>g. agree (def_tags d) tags (grp_tags g)"
  let ?s1 = "ingest self m"
  have r2': "reaches_scan ?s1 m2 d tags" using r2 by simp
  have step: ?thesis
    if b: "bucket ?s1 ?s ?t = pre @ g1 # post"
      and pre: "\<forall>p\<in>set pre. \<not> ?P p"
      and g1: "?P g1"
      and t1: "grp_timestamp g1 = m_timestamp m * 1000000000"
      and f1: "float_of_int (grp_timestamp g1) \<noteq> Inl OverflowError"
      and fld: "map_of (grp_fields g1) (m_metric m) = Some (encode_value (m_value m))"
    for pre g1 post
  proof -
    from render_ok[OF f1] obtain data where d: "render ?t g1 = Inr data" by blast
    have b': "bucket ?s1 (lower (m_source m2)) (m_type m2) = pre @ g1 # post"
      unfolding src mty by (rule b)
    have t': "grp_timestamp g1 \<noteq> m_timestamp m2 * 1000000000" using t1 ts by simp
    have d': "render (m_type m2) g1 = Inr data" unfolding mty by (rule d)
    have "receive_try ?s1 m2 =
        Inr (set_bucket (?s1\<lparr>send_queue := appendleft data (send_queue ?s1)\<rparr>)
          (lower (m_source m2)) (m_type m2) (pre @ post @ [new_group m2 tags]))"
      by (rule receive_try_close[OF r2' b' pre g1 t' d'])
    then have i2: "ingest ?s1 m2 =
        set_bucket (?s1\<lparr>send_queue := appendleft data (send_queue ?s1)\<rparr>) ?s ?t
          (pre @ post @ [new_group m2 tags])"
      unfolding src mty by (simp add: ingest_eq)
    have q: "send_queue (ingest ?s1 m2) = appendleft data (send_queue ?s1)"
      unfolding i2 by simp
    have bb: "bucket (ingest ?s1 m2) ?s ?t = pre @ post @ [new_group m2 tags]"
      unfolding i2 by simp
    from b t1 fld d q bb show ?thesis by blast
  qed
  have newg: "?P (new_group m tags)"
    "grp_timestamp (new_group m tags) = m_timestamp m * 1000000000"
    "float_of_int (grp_timestamp (new_group m tags)) \<noteq> Inl OverflowError"
    "map_of (grp_fields (new_group m tags)) (m_metric m) = Some (encode_value (m_value m))"
    using ok1 by (simp_all add: new_group_def agree_refl)
  show ?thesis
  proof (cases "\<exists>g\<in>set ?es. ?P g")
    case False
    then have n: "\<forall>g\<in>set ?es. \<not> ?P g" by blast
    have "receive_try self m = Inr (set_bucket self ?s ?t (?es @ [new_group m tags]))"
      by (rule receive_try_append[OF r n])
    then have b: "bucket ?s1 ?s ?t = ?es @ new_group m tags # []" by (simp add: ingest_eq)
    show ?thesis by (rule step[OF b n newg])
  next
    case True
    from split_list_first_prop[OF True]
    obtain pre g post where es: "?es = pre @ g # post" and g: "?P g"
      and pre: "\<forall>p\<in>set pre. \<not> ?P p" by blast
    from one have "length (filter ?P (pre @ g # post)) \<le> 1" unfolding es .
    from only_one_agreeing[OF this g]
    have post: "\<forall>p\<in>set post. \<not> ?P p" by blast
    have "g \<in> set ?es" unfolding es by simp
    with ok have fg: "float_of_int (grp_timestamp g) \<noteq> Inl OverflowError" by blast
    show ?thesis
    proof (cases "grp_timestamp g = m_timestamp m * 1000000000")
      case True
      have "receive_try self m = Inr (set_bucket self ?s ?t (pre @ merged m g # post))"
        by (rule receive_try_merge[OF r es pre g True])
      then have b: "bucket ?s1 ?s ?t = pre @ merged m g # post" by (simp add: ingest_eq)
      have mg: "?P (merged m g)" "grp_timestamp (merged m g) = m_timestamp m * 1000000000"
        "float_of_int (grp_timestamp (merged m g)) \<noteq> Inl OverflowError"
        "map_of (grp_fields (merged m g)) (m_metric m) = Some (encode_value (m_value m))"
        using g True fg by (simp_all add: merged_def update_conv')
      show ?thesis by (rule step[OF b pre mg])
    next
      case False
      from render_ok[OF fg] obtain data0 where d0: "render ?t g = Inr data0" by blast
      have "receive_try self m =
          Inr (set_bucket (self\<lparr>send_queue := appendleft data0 (send_queue self)\<rparr>) ?s ?t
                 (pre @ post @ [new_group m tags]))"
        by (rule receive_try_close[OF r es pre g False d0])
      then have b: "bucket ?s1 ?s ?t = (pre @ post) @ new_group m tags # []"
        by (simp add: ingest_eq)
      have n: "\<forall>p\<in>set (pre @ post). \<not> ?P p" using pre post by auto
      show ?thesis by (rule step[OF b n newg])
    qed
  qed
qed

text \<open>
  Claim C3, as stated, on the example: after a \<^verbatim>\<open>frequency\<close>, a \<^verbatim>\<open>power\<close> and another
  \<^verbatim>\<open>frequency\<close> sample (seconds 1, 1 and 2) two open groups agree with a \<^verbatim>\<open>frequency\<close>
  sample on its definition's tag.  Two \<^verbatim>\<open>frequency\<close> samples of the same identity then
  arrive at \<open>T1 = 3\<close> and \<open>T2 = 4\<close>: the first closes the \<^verbatim>\<open>power\<close> group, and the entry
  pushed when the second arrives is the group of second 2, not a group for \<open>T1\<close>; the
  group for \<open>T1\<close> is still open beside the new group for \<open>T2\<close>.
\<close>

theorem C3_wrong_group_closed_counterexample:
  "send_queue (ingest (ingest (ingest (ingest (ingest example_start
       (example_metric ''frequency'' 1 (PInt 50)))
       (example_metric ''power'' 1 (PInt 1234)))
       (example_metric ''frequency'' 2 (PInt 51)))
       (example_metric ''frequency'' 3 (PInt 52)))
       (example_metric ''frequency'' 4 (PInt 53))) =
     ''energy,type=openmotics,id=0 frequency=51i 2000000000'' #
     send_queue (ingest (ingest (ingest (ingest example_start
       (example_metric ''frequency'' 1 (PInt 50)))
       (example_metric ''power'' 1 (PInt 1234)))
       (example_metric ''frequency'' 2 (PInt 51)))
       (example_metric ''frequency'' 3 (PInt 52))) \<and>
   bucket (ingest (ingest (ingest (ingest (ingest example_start
       (example_metric ''frequency'' 1 (PInt 50)))
       (example_metric ''power'' 1 (PInt 1234)))
       (example_metric ''frequency'' 2 (PInt 51)))
       (example_metric ''frequency'' 3 (PInt 52)))
       (example_metric ''frequency'' 4 (PInt 53))) ''openmotics'' ''energy'' =
     [\<lparr>grp_timestamp = 3000000000,
       grp_tags = [(''type'', PStr ''openmotics''), (''id'', PInt 0)],
       grp_fields = [(''frequency'', PStr ''52i'')]\<rparr>,
      \<lparr>grp_timestamp = 4000000000,
       grp_tags = [(''type'', PStr ''openmotics''), (''id'', PInt 0)],
       grp_fields = [(''frequency'', PStr ''53i'')]\<rparr>]"
  by code_simp

text \<open>
  Claim C3, amended.  For every sample, the call leaves the sample's bucket and the
  queue in one of four ways: both as they were (the sample is dropped); the sample
  merged into one group, nothing queued, no group added; a new group appended, nothing
  queued; or one group closed, its entry pushed on the queue, and a new group appended.
  So at most one group is closed, and the sample is merged or starts a new group, never
  both.  In particular, take two samples with the same bucket, definition tags and tags,
  at the timestamps \<open>T1\<close> and then \<open>T2 \<noteq> T1\<close>; if at most one open group of the bucket
  agrees with them on the definition's tags when the first arrives, and \<^verbatim>\<open>float()\<close>
  does not overflow on the timestamps of the bucket's groups and on \<open>T1\<close>, then the
  second call pushes exactly one entry, the rendering of a group for \<open>T1\<close> that holds the
  first sample's field, takes that group out of the bucket and appends a new group for
  \<open>T2\<close>.
\<close>

theorem C3_one_close_merge_or_new:
  "((bucket (ingest self m) (lower (m_source m)) (m_type m) =
       bucket self (lower (m_source m)) (m_type m) \<and>
     send_queue (ingest self m) = send_queue self) \<or>
    (\<exists>pre g post.
       bucket self (lower (m_source m)) (m_type m) = pre @ g # post \<and>
       grp_timestamp g = m_timestamp m * 1000000000 \<and>
       bucket (ingest self m) (lower (m_source m)) (m_type m) = pre @ merged m g # post \<and>
       send_queue (ingest self m) = send_queue self) \<or>
    (\<exists>tags.
       bucket (ingest self m) (lower (m_source m)) (m_type m) =
         bucket self (lower (m_source m)) (m_type m) @ [new_group m tags] \<and>
       send_queue (ingest self m) = send_queue self) \<or>
    (\<exists>tags pre g post data.
       bucket self (lower (m_source m)) (m_type m) = pre @ g # post \<and>
       grp_timestamp g \<noteq> m_timestamp m * 1000000000 \<and>
       render (m_type m) g = Inr data \<and>
       bucket (ingest self m) (lower (m_source m)) (m_type m) =
         pre @ post @ [new_group m tags] \<and>
       send_queue (ingest self m) = appendleft data (send_queue self))) \<and>
   (\<forall>d tags m2.
      reaches_scan self m d tags \<and> reaches_scan self m2 d tags \<and>
      lower (m_source m2) = lower (m_source m) \<and> m_type m2 = m_type m \<and>
      m_timestamp m2 \<noteq> m_timestamp m \<and>
      length (filter (\<lambda>g. agree (def_tags d) tags (grp_tags g))
                (bucket self (lower (m_source m)) (m_type m))) \<le> 1 \<and>
      (\<forall>g\<in>set (bucket self (lower (m_source m)) (m_type m)).
          float_of_int (grp_timestamp g) \<noteq> Inl OverflowError) \<and>
      float_of_int (m_timestamp m * 1000000000) \<noteq> Inl OverflowError \<longrightarrow>
      (\<exists>pre g1 post data.
          bucket (ingest self m) (lower (m_source m)) (m_type m) = pre @ g1 # post \<and>
          grp_timestamp g1 = m_timestamp m * 1000000000 \<and>
          map_of (grp_fields g1) (m_metric m) = Some (encode_value (m_value m)) \<and>
          render (m_type m) g1 = Inr data \<and>
          send_queue (ingest (ingest self m) m2) =
            appendleft data (send_queue (ingest self m)) \<and>
          bucket (ingest (ingest self m) m2) (lower (m_source m)) (m_type m) =
            pre @ post @ [new_group m2 tags]))"
proof (intro conjI allI impI)
  show "(bucket (ingest self m) (lower (m_source m)) (m_type m) =
       bucket self (lower (m_source m)) (m_type m) \<and>
     send_queue (ingest self m) = send_queue self) \<or>
    (\<exists>pre g post.
       bucket self (lower (m_source m)) (m_type m) = pre @ g # post \<and>
       grp_timestamp g = m_timestamp m * 1000000000 \<and>
       bucket (ingest self m) (lower (m_source m)) (m_type m) = pre @ merged m g # post \<and>
       send_queue (ingest self m) = send_queue self) \<or>
    (\<exists>tags.
       bucket (ingest self m) (lower (m_source m)) (m_type m) =
         bucket self (lower (m_source m)) (m_type m) @ [new_group m tags] \<and>
       send_queue (ingest self m) = send_queue self) \<or>
    (\<exists>tags pre g post data.
       bucket self (lower (m_source m)) (m_type m) = pre @ g # post \<and>
       grp_timestamp g \<noteq> m_timestamp m * 1000000000 \<and>
       render (m_type m) g = Inr data \<and>
       bucket (ingest self m) (lower (m_source m)) (m_type m) =
         pre @ post @ [new_group m tags] \<and>
       send_queue (ingest self m) = appendleft data (send_queue self))"
    by (rule ingest_outcome)
next
  fix d tags m2
  assume h: "reaches_scan self m d tags \<and> reaches_scan self m2 d tags \<and>
      lower (m_source m2) = lower (m_source m) \<and> m_type m2 = m_type m \<and>
      m_timestamp m2 \<noteq> m_timestamp m \<and>
      length (filter (\<lambda>g. agree (def_tags d) tags (grp_tags g))
                (bucket self (lower (m_source m)) (m_type m))) \<le> 1 \<and>
      (\<forall>g\<in>set (bucket self (lower (m_source m)) (m_type m)).
          float_of_int (grp_timestamp g) \<noteq> Inl OverflowError) \<and>
      float_of_int (m_timestamp m * 1000000000) \<noteq> Inl OverflowError"
  show "\<exists>pre g1 post data.
          bucket (ingest self m) (lower (m_source m)) (m_type m) = pre @ g1 # post \<and>
          grp_timestamp g1 = m_timestamp m * 1000000000 \<and>
          map_of (grp_fields g1) (m_metric m) = Some (encode_value (m_value m)) \<and>
          render (m_type m) g1 = Inr data \<and>
          send_queue (ingest (ingest self m) m2) =
            appendleft data (send_queue (ingest self m)) \<and>
          bucket (ingest (ingest self m) m2) (lower (m_source m)) (m_type m) =
            pre @ post @ [new_group m2 tags]"
  proof (rule flush_on_timestamp_change)
    show "reaches_scan self m d tags" using h by blast
    show "reaches_scan self m2 d tags" using h by blast
    show "lower (m_source m2) = lower (m_source m)" using h by blast
    show "m_type m2 = m_type m" using h by blast
    show "m_timestamp m2 \<noteq> m_timestamp m" using h by blast
    show "length (filter (\<lambda>g. agree (def_tags d) tags (grp_tags g))
                (bucket self (lower (m_source m)) (m_type m))) \<le> 1" using h by blast
    show "\<forall>g\<in>set (bucket self (lower (m_source m)) (m_type m)).
          float_of_int (grp_timestamp g) \<noteq> Inl OverflowError" using h by blast
    show "float_of_int (m_timestamp m * 1000000000) \<noteq> Inl OverflowError" using h by blast
  qed
qed

theorem C3_one_close_merge_or_new_witness:
  "reaches_scan example_start (example_metric ''power'' 1497677091 (PInt 1234))
     \<lparr>def_tags = [''device'', ''id'']\<rparr>
     [(''type'', PStr ''openmotics''), (''device'', PStr ''ID1''), (''id'', PInt 0)] \<and>
   reaches_scan example_start (example_metric ''power'' 1497677092 (PInt 1250))
     \<lparr>def_tags = [''device'', ''id'']\<rparr>
     [(''type'', PStr ''openmotics''), (''device'', PStr ''ID1''), (''id'', PInt 0)] \<and>
   send_queue (ingest (ingest example_start (example_metric ''power'' 1497677091 (PInt 1234)))
       (example_metric ''power'' 1497677092 (PInt 1250))) =
     [''energy,type=openmotics,device=ID1,id=0 power=1234i 1497677091000000000''] \<and>
   bucket (ingest (ingest example_start (example_metric ''power'' 1497677091 (PInt 1234)))
       (example_metric ''power'' 1497677092 (PInt 1250))) ''openmotics'' ''energy'' =
     [\<lparr>grp_timestamp = 1497677092000000000,
       grp_tags = [(''type'', PStr ''openmotics''), (''device'', PStr ''ID1''), (''id'', PInt 0)],
       grp_fields = [(''power'', PStr ''1250i'')]\<rparr>]"
proof -
  let ?m = "example_metric ''power'' 1497677091 (PInt 1234)"
  let ?m2 = "example_metric ''power'' 1497677092 (PInt 1250)"
  let ?d = "\<lparr>def_tags = [''device'', ''id'']\<rparr>"
  let ?t = "[(''type'', PStr ''openmotics''), (''device'', PStr ''ID1''), (''id'', PInt 0)]"
  let ?g = "\<lparr>grp_timestamp = 1497677091000000000, grp_tags = ?t,
             grp_fields = [(''power'', PStr ''1234i'')]\<rparr>"
  let ?s1 = "ingest example_start ?m"
  have r: "reaches_scan example_start ?m ?d ?t" by code_simp
  have r2: "reaches_scan example_start ?m2 ?d ?t" by code_simp
  have l: "lower (m_source ?m) = ''openmotics''" "m_type ?m = ''energy''" by code_simp+
  have l2: "lower (m_source ?m2) = lower (m_source ?m)" "m_type ?m2 = m_type ?m"
    by (simp_all add: example_metric_def)
  have ts: "m_timestamp ?m2 \<noteq> m_timestamp ?m" by (simp add: example_metric_def)
  have e: "bucket example_start (lower (m_source ?m)) (m_type ?m) = []" by code_simp
  have one: "length (filter (\<lambda>g. agree (def_tags ?d) ?t (grp_tags g))
                (bucket example_start (lower (m_source ?m)) (m_type ?m))) \<le> 1"
    unfolding e by simp
  have ok: "\<forall>g\<in>set (bucket example_start (lower (m_source ?m)) (m_type ?m)).
          float_of_int (grp_timestamp g) \<noteq> Inl OverflowError"
    unfolding e by simp
  have ok1: "float_of_int (m_timestamp ?m * 1000000000) \<noteq> Inl OverflowError" by code_simp
  note c = C3_one_close_merge_or_new[of example_start ?m, THEN conjunct2, rule_format,
      of ?d ?t ?m2]
  have "\<exists>pre g1 post data.
          bucket ?s1 (lower (m_source ?m)) (m_type ?m) = pre @ g1 # post \<and>
          grp_timestamp g1 = m_timestamp ?m * 1000000000 \<and>
          map_of (grp_fields g1) (m_metric ?m) = Some (encode_value (m_value ?m)) \<and>
          render (m_type ?m) g1 = Inr data \<and>
          send_queue (ingest ?s1 ?m2) = appendleft data (send_queue ?s1) \<and>
          bucket (ingest ?s1 ?m2) (lower (m_source ?m)) (m_type ?m) =
            pre @ post @ [new_group ?m2 ?t]"
    by (rule c) (intro conjI r r2 l2 ts one ok ok1)
  then obtain pre g1 post data
    where b: "bucket ?s1 (lower (m_source ?m)) (m_type ?m) = pre @ g1 # post"
      and rd: "render (m_type ?m) g1 = Inr data"
      and q: "send_queue (ingest ?s1 ?m2) = appendleft data (send_queue ?s1)"
      and bb: "bucket (ingest ?s1 ?m2) (lower (m_source ?m)) (m_type ?m) =
            pre @ post @ [new_group ?m2 ?t]"
    by blast
  have bk: "bucket ?s1 (lower (m_source ?m)) (m_type ?m) = [?g]" by code_simp
  from b bk have p: "pre = []" "g1 = ?g" "post = []"
    by (simp_all add: Cons_eq_append_conv)
  have rg: "render (m_type ?m) ?g =
      Inr ''energy,type=openmotics,device=ID1,id=0 power=1234i 1497677091000000000''"
    by code_simp
  have q1: "send_queue ?s1 = []" by code_simp
  have ng: "new_group ?m2 ?t = \<lparr>grp_timestamp = 1497677092000000000, grp_tags = ?t,
             grp_fields = [(''power'', PStr ''1250i'')]\<rparr>" by code_simp
  from rd rg p have dt:
    "data = ''energy,type=openmotics,device=ID1,id=0 power=1234i 1497677091000000000''"
    by simp
  from q q1 dt have 1: "send_queue (ingest ?s1 ?m2) =
     [''energy,type=openmotics,device=ID1,id=0 power=1234i 1497677091000000000'']"
    by (simp add: appendleft_def)
  from bb p ng l have 2: "bucket (ingest ?s1 ?m2) ''openmotics'' ''energy'' =
     [\<lparr>grp_timestamp = 1497677092000000000, grp_tags = ?t,
       grp_fields = [(''power'', PStr ''1250i'')]\<rparr>]"
    by simp
  from r r2 1 2 show ?thesis by blast
qed

section \<open>The open groups of a bucket\<close>

lemma one_per_identity_append:
  "one_per_identity ks (xs @ ys) =
     (one_per_identity ks xs \<and> one_per_identity ks ys \<and>
      (\<forall>x\<in>set xs. \<forall>y\<in>set ys. \<not> agree ks (grp_tags x) (grp_tags y)))"
  by (induction xs) (auto simp: list_all_iff)

lemma one_per_identity_distinct:
  "one_per_identity ks es \<Longrightarrow> distinct (map grp_tags es)"
  by (induction es) (auto simp: list_all_iff agree_refl)

lemma grp_tags_merged [simp]: "grp_tags (merged m g) = grp_tags g"
  by (simp add: merged_def)

lemma grp_tags_new_group [simp]: "grp_tags (new_group m tags) = tags"
  by (simp add: new_group_def)

lemma merged_fields_grow: "fst ` set (grp_fields g) \<subseteq> fst ` set (grp_fields (merged m g))"
  by (auto simp: merged_def dom_update)

lemma uniform_tags_lookup:
  assumes "uniform_tags defs L"
    and "lookup_definition defs source metric_type name = Some d"
  shows "def_tags d = L (lower source) metric_type"
proof -
  from assms(2) obtain by_type by_name
    where a: "map_of defs source = Some by_type"
      and b: "map_of by_type metric_type = Some by_name"
      and c: "map_of by_name name = Some d"
    by (auto simp: lookup_definition_def split: option.splits)
  from a have "(source, by_type) \<in> set defs" by (rule map_of_SomeD)
  moreover from b have "(metric_type, by_name) \<in> set by_type" by (rule map_of_SomeD)
  moreover from c have "(name, d) \<in> set by_name" by (rule map_of_SomeD)
  ultimately show ?thesis
    using assms(1) by (fastforce simp: uniform_tags_def list_all_iff)
qed

text \<open>A call changes no bucket but the sample's.\<close>

lemma bucket_ingest_other:
  assumes "s \<noteq> lower (m_source m) \<or> t \<noteq> m_type m"
  shows "bucket (ingest self m) s t = bucket self s t"
  by (rule receive_try_cases[of self m])
     (use assms in \<open>auto simp: ingest_eq bucket_set_bucket_other\<close>)

text \<open>
  When no two open groups of the bucket agree on the tags of the sample's definition
  before a call, none do after it.
\<close>

lemma one_per_identity_ingest:
  assumes u: "\<forall>d tags. reaches_scan self m d tags \<longrightarrow> def_tags d = ks"
    and inv: "one_per_identity ks (bucket self (lower (m_source m)) (m_type m))"
  shows "one_per_identity ks (bucket (ingest self m) (lower (m_source m)) (m_type m))"
proof (rule receive_try_cases[of self m])
  assume "receive_try self m = Inr self"
  with inv show ?thesis by (simp add: ingest_eq)
next
  fix e assume "receive_try self m = Inl (e, self)"
  with inv show ?thesis by (simp add: ingest_eq)
next
  fix d tags
  assume r: "reaches_scan self m d tags"
    and n: "\<forall>g\<in>set (bucket self (lower (m_source m)) (m_type m)).
             \<not> agree (def_tags d) tags (grp_tags g)"
    and rt: "receive_try self m =
             Inr (set_bucket self (lower (m_source m)) (m_type m)
                    (bucket self (lower (m_source m)) (m_type m) @ [new_group m tags]))"
  from u r have k: "def_tags d = ks" by blast
  from n k have "\<forall>g\<in>set (bucket self (lower (m_source m)) (m_type m)).
             \<not> agree ks (grp_tags g) tags"
    by (simp add: agree_sym)
  with inv rt show ?thesis by (simp add: ingest_eq one_per_identity_append)
next
  fix d tags pre g post
  assume es: "bucket self (lower (m_source m)) (m_type m) = pre @ g # post"
    and rt: "receive_try self m =
             Inr (set_bucket self (lower (m_source m)) (m_type m) (pre @ merged m g # post))"
  from inv es rt show ?thesis
    by (simp add: ingest_eq one_per_identity_append list_all_iff)
next
  fix d tags pre g post data
  assume r: "reaches_scan self m d tags"
    and es: "bucket self (lower (m_source m)) (m_type m) = pre @ g # post"
    and pre: "\<forall>p\<in>set pre. \<not> agree (def_tags d) tags (grp_tags p)"
    and g: "agree (def_tags d) tags (grp_tags g)"
    and rt: "receive_try self m =
             Inr (set_bucket (self\<lparr>send_queue := appendleft data (send_queue self)\<rparr>)
                    (lower (m_source m)) (m_type m) (pre @ post @ [new_group m tags]))"
  from u r have k: "def_tags d = ks" by blast
  from inv es have i: "one_per_identity ks pre" "one_per_identity ks post"
    "\<forall>x\<in>set pre. \<forall>y\<in>set post. \<not> agree ks (grp_tags x) (grp_tags y)"
    "\<forall>y\<in>set post. \<not> agree ks (grp_tags g) (grp_tags y)"
    by (auto simp: one_per_identity_append list_all_iff)
  have a: "\<not> agree ks (grp_tags x) tags" if "x \<in> set pre" for x
    using pre that k by (simp add: agree_sym)
  have b: "\<not> agree ks (grp_tags y) tags" if y: "y \<in> set post" for y
  proof
    assume "agree ks (grp_tags y) tags"
    then have "agree ks tags (grp_tags y)" by (simp add: agree_sym)
    moreover from g k have "agree ks (grp_tags g) tags" by (simp add: agree_sym)
    ultimately have "agree ks (grp_tags g) (grp_tags y)" by (rule agree_trans[rotated])
    with i(4) y show False by blast
  qed
  from i a b rt show ?thesis
    by (simp add: ingest_eq one_per_identity_append)
qed

text \<open>
  With uniform definitions, no two open groups of a bucket agree on the bucket's tags,
  whatever samples arrive, once this holds.
\<close>

lemma one_per_identity_run:
  assumes "uniform_tags defs L"
    and "definitions self = None \<or> definitions self = Some defs"
    and "\<forall>s t. one_per_identity (L s t) (bucket self s t)"
  shows "\<forall>s t. one_per_identity (L s t) (bucket (foldl ingest self ms) s t)"
  using assms(2,3)
proof (induction ms arbitrary: self)
  case Nil
  then show ?case by simp
next
  case (Cons m ms)
  have u: "\<forall>d tags. reaches_scan self m d tags \<longrightarrow>
              def_tags d = L (lower (m_source m)) (m_type m)"
    using Cons.prems(1) uniform_tags_lookup[OF assms(1)]
    by (auto simp: reaches_scan_def split: option.splits)
  have "one_per_identity (L s t) (bucket (ingest self m) s t)" for s t
  proof (cases "s \<noteq> lower (m_source m) \<or> t \<noteq> m_type m")
    case True
    from bucket_ingest_other[OF True] Cons.prems(2) show ?thesis by simp
  next
    case False
    then have st: "s = lower (m_source m)" "t = m_type m" by simp_all
    from Cons.prems(2) have "one_per_identity (L (lower (m_source m)) (m_type m))
        (bucket self (lower (m_source m)) (m_type m))" by blast
    from one_per_identity_ingest[OF u this] show ?thesis unfolding st .
  qed
  then have "\<forall>s t. one_per_identity (L s t) (bucket (ingest self m) s t)" by blast
  moreover have "definitions (ingest self m) = None \<or> definitions (ingest self m) = Some defs"
    using Cons.prems(1) by simp
  ultimately show ?case using Cons.IH[of "ingest self m"] by simp
qed

text \<open>
  With uniform definitions every open group of a bucket has tags built with the bucket's
  tag list, whatever samples arrive.
\<close>

lemma built_tags_ingest:
  assumes u: "\<forall>d tags. reaches_scan self m d tags \<longrightarrow> def_tags d = ks"
    and inv: "\<forall>g\<in>set (bucket self (lower (m_source m)) (m_type m)).
                built_tags (lower (m_source m)) ks (grp_tags g)"
  shows "\<forall>g\<in>set (bucket (ingest self m) (lower (m_source m)) (m_type m)).
                built_tags (lower (m_source m)) ks (grp_tags g)"
proof
  fix g'
  assume g': "g' \<in> set (bucket (ingest self m) (lower (m_source m)) (m_type m))"
  show "built_tags (lower (m_source m)) ks (grp_tags g')"
  proof (rule receive_try_cases[of self m])
    assume "receive_try self m = Inr self"
    with inv g' show ?thesis by (simp add: ingest_eq)
  next
    fix e assume "receive_try self m = Inl (e, self)"
    with inv g' show ?thesis by (simp add: ingest_eq)
  next
    fix d tags
    assume r: "reaches_scan self m d tags"
      and rt: "receive_try self m =
             Inr (set_bucket self (lower (m_source m)) (m_type m)
                    (bucket self (lower (m_source m)) (m_type m) @ [new_group m tags]))"
    from u r built_tags_reaches_scan[OF r] have "built_tags (lower (m_source m)) ks tags" by auto
    with inv g' rt show ?thesis by (auto simp: ingest_eq)
  next
    fix d tags pre g post
    assume es: "bucket self (lower (m_source m)) (m_type m) = pre @ g # post"
      and rt: "receive_try self m =
             Inr (set_bucket self (lower (m_source m)) (m_type m) (pre @ merged m g # post))"
    from inv g' rt es show ?thesis by (auto simp: ingest_eq)
  next
    fix d tags pre g post data
    assume r: "reaches_scan self m d tags"
      and es: "bucket self (lower (m_source m)) (m_type m) = pre @ g # post"
      and rt: "receive_try self m =
             Inr (set_bucket (self\<lparr>send_queue := appendleft data (send_queue self)\<rparr>)
                    (lower (m_source m)) (m_type m) (pre @ post @ [new_group m tags]))"
    from u r built_tags_reaches_scan[OF r] have "built_tags (lower (m_source m)) ks tags" by auto
    with inv g' rt es show ?thesis by (auto simp: ingest_eq)
  qed
qed

lemma built_tags_run:
  assumes "uniform_tags defs L"
    and "definitions self = None \<or> definitions self = Some defs"
    and "\<forall>s t. \<forall>g\<in>set (bucket self s t). built_tags s (L s t) (grp_tags g)"
  shows "\<forall>s t. \<forall>g\<in>set (bucket (foldl ingest self ms) s t). built_tags s (L s t) (grp_tags g)"
  using assms(2,3)
proof (induction ms arbitrary: self)
  case Nil
  then show ?case by simp
next
  case (Cons m ms)
  have u: "\<forall>d tags. reaches_scan self m d tags \<longrightarrow>
              def_tags d = L (lower (m_source m)) (m_type m)"
    using Cons.prems(1) uniform_tags_lookup[OF assms(1)]
    by (auto simp: reaches_scan_def split: option.splits)
  have "\<forall>g\<in>set (bucket (ingest self m) s t). built_tags s (L s t) (grp_tags g)" for s t
  proof (cases "s \<noteq> lower (m_source m) \<or> t \<noteq> m_type m")
    case True
    from bucket_ingest_other[OF True] Cons.prems(2) show ?thesis by simp
  next
    case False
    then have st: "s = lower (m_source m)" "t = m_type m" by simp_all
    from Cons.prems(2) have "\<forall>g\<in>set (bucket self (lower (m_source m)) (m_type m)).
        built_tags (lower (m_source m)) (L (lower (m_source m)) (m_type m)) (grp_tags g)" by blast
    from built_tags_ingest[OF u this] show ?thesis unfolding st .
  qed
  then have "\<forall>s t. \<forall>g\<in>set (bucket (ingest self m) s t). built_tags s (L s t) (grp_tags g)"
    by blast
  moreover have "definitions (ingest self m) = None \<or> definitions (ingest self m) = Some defs"
    using Cons.prems(1) by simp
  ultimately show ?case using Cons.IH[of "ingest self m"] by simp
qed

text \<open>Every group of the bucket after a call is an old group, an old group merged into, or new.\<close>

lemma ingest_groups:
  assumes "g' \<in> set (bucket (ingest self m) (lower (m_source m)) (m_type m))"
  shows "g' \<in> set (bucket self (lower (m_source m)) (m_type m)) \<or>
     (\<exists>g\<in>set (bucket self (lower (m_source m)) (m_type m)).
         g' = merged m g \<and> grp_timestamp g' = grp_timestamp g \<and> grp_tags g' = grp_tags g \<and>
         fst ` set (grp_fields g) \<subseteq> fst ` set (grp_fields g')) \<or>
     (\<exists>tags. g' = new_group m tags)"
proof -
  have mg: "grp_timestamp (merged m g) = grp_timestamp g \<and> grp_tags (merged m g) = grp_tags g \<and>
      fst ` set (grp_fields g) \<subseteq> fst ` set (grp_fields (merged m g))" for g
    using merged_fields_grow[of g m] by (simp add: merged_def)
  from ingest_outcome[of self m] show ?thesis
  proof (elim disjE exE conjE)
    assume "bucket (ingest self m) (lower (m_source m)) (m_type m) =
       bucket self (lower (m_source m)) (m_type m)"
    with assms show ?thesis by simp
  next
    fix pre g post
    assume es: "bucket self (lower (m_source m)) (m_type m) = pre @ g # post"
      and b: "bucket (ingest self m) (lower (m_source m)) (m_type m) = pre @ merged m g # post"
    from assms b have "g' \<in> set pre \<or> g' = merged m g \<or> g' \<in> set post" by auto
    then show ?thesis
    proof (elim disjE)
      assume "g' = merged m g"
      moreover have "g \<in> set (bucket self (lower (m_source m)) (m_type m))"
        unfolding es by simp
      ultimately show ?thesis using mg[of g] by blast
    qed (simp_all add: es)
  next
    fix tags
    assume "bucket (ingest self m) (lower (m_source m)) (m_type m) =
         bucket self (lower (m_source m)) (m_type m) @ [new_group m tags]"
    with assms show ?thesis by auto
  next
    fix tags pre g post data
    assume es: "bucket self (lower (m_source m)) (m_type m) = pre @ g # post"
      and b: "bucket (ingest self m) (lower (m_source m)) (m_type m) =
         pre @ post @ [new_group m tags]"
    from assms b have "g' \<in> set pre \<or> g' \<in> set post \<or> g' = new_group m tags" by auto
    then show ?thesis by (auto simp: es)
  qed
qed

text \<open>
  Claim C4, as stated, on the example: after \<^verbatim>\<open>frequency\<close>, \<^verbatim>\<open>power\<close>, \<^verbatim>\<open>frequency\<close> and
  \<^verbatim>\<open>frequency\<close> samples at the seconds 1, 1, 2 and 3 the bucket holds two open groups
  with the same tag set.
\<close>

theorem C4_two_groups_one_tagset_counterexample:
  "bucket (ingest (ingest (ingest (ingest example_start
       (example_metric ''frequency'' 1 (PInt 50)))
       (example_metric ''power'' 1 (PInt 1234)))
       (example_metric ''frequency'' 2 (PInt 51)))
       (example_metric ''frequency'' 3 (PInt 52))) ''openmotics'' ''energy'' =
     [\<lparr>grp_timestamp = 2000000000,
       grp_tags = [(''type'', PStr ''openmotics''), (''id'', PInt 0)],
       grp_fields = [(''frequency'', PStr ''51i'')]\<rparr>,
      \<lparr>grp_timestamp = 3000000000,
       grp_tags = [(''type'', PStr ''openmotics''), (''id'', PInt 0)],
       grp_fields = [(''frequency'', PStr ''52i'')]\<rparr>] \<and>
   \<not> distinct (map grp_tags (bucket (ingest (ingest (ingest (ingest example_start
       (example_metric ''frequency'' 1 (PInt 50)))
       (example_metric ''power'' 1 (PInt 1234)))
       (example_metric ''frequency'' 2 (PInt 51)))
       (example_metric ''frequency'' 3 (PInt 52))) ''openmotics'' ''energy''))"
  by code_simp

text \<open>
  Claim C4, amended.  Provided the definitions are uniform (all metrics of one bucket
  have the same tag list), if no two open groups of any bucket agree on the bucket's
  tags, then after any number of ingestion calls this is still so, and the open groups
  of each bucket have distinct tag sets.  For every call, definitions uniform or not: a
  group of the sample's bucket after the call is a group that was there before, or such
  a group merged into (same timestamp and tags, no field name lost), or the new group;
  the queue is as before, or holds one more entry in front, the rendering of a group
  that is no longer in the bucket, while the entries queued before are unchanged; and
  a sender cycle leaves what it does not drain as it was.
\<close>

theorem C4_open_groups_invariant:
  "(uniform_tags defs L \<and> (definitions self = None \<or> definitions self = Some defs) \<and>
    (\<forall>s t. one_per_identity (L s t) (bucket self s t)) \<longrightarrow>
    (\<forall>s t. one_per_identity (L s t) (bucket (foldl ingest self ms) s t) \<and>
           distinct (map grp_tags (bucket (foldl ingest self ms) s t)))) \<and>
   (\<forall>g'\<in>set (bucket (ingest self m) (lower (m_source m)) (m_type m)).
      g' \<in> set (bucket self (lower (m_source m)) (m_type m)) \<or>
      (\<exists>g\<in>set (bucket self (lower (m_source m)) (m_type m)).
          g' = merged m g \<and> grp_timestamp g' = grp_timestamp g \<and> grp_tags g' = grp_tags g \<and>
          fst ` set (grp_fields g) \<subseteq> fst ` set (grp_fields g')) \<or>
      (\<exists>tags. g' = new_group m tags)) \<and>
   (send_queue (ingest self m) = send_queue self \<or>
    (\<exists>tags pre g post data.
       bucket self (lower (m_source m)) (m_type m) = pre @ g # post \<and>
       render (m_type m) g = Inr data \<and>
       bucket (ingest self m) (lower (m_source m)) (m_type m) =
         pre @ post @ [new_group m tags] \<and>
       send_queue (ingest self m) = data # send_queue self)) \<and>
   (\<exists>n. send_queue (fst (sender_cycle self)) = take n (send_queue self))"
proof (intro conjI impI ballI allI)
  fix s t
  assume h: "uniform_tags defs L \<and> (definitions self = None \<or> definitions self = Some defs) \<and>
    (\<forall>s t. one_per_identity (L s t) (bucket self s t))"
  then have "\<forall>s t. one_per_identity (L s t) (bucket (foldl ingest self ms) s t)"
    using one_per_identity_run[of defs L self ms] by blast
  then show o: "one_per_identity (L s t) (bucket (foldl ingest self ms) s t)" by blast
  then show "distinct (map grp_tags (bucket (foldl ingest self ms) s t))"
    by (rule one_per_identity_distinct)
next
  fix g'
  assume "g' \<in> set (bucket (ingest self m) (lower (m_source m)) (m_type m))"
  then show "g' \<in> set (bucket self (lower (m_source m)) (m_type m)) \<or>
      (\<exists>g\<in>set (bucket self (lower (m_source m)) (m_type m)).
          g' = merged m g \<and> grp_timestamp g' = grp_timestamp g \<and> grp_tags g' = grp_tags g \<and>
          fst ` set (grp_fields g) \<subseteq> fst ` set (grp_fields g')) \<or>
      (\<exists>tags. g' = new_group m tags)"
    by (rule ingest_groups)
next
  from ingest_outcome[of self m]
  show "send_queue (ingest self m) = send_queue self \<or>
    (\<exists>tags pre g post data.
       bucket self (lower (m_source m)) (m_type m) = pre @ g # post \<and>
       render (m_type m) g = Inr data \<and>
       bucket (ingest self m) (lower (m_source m)) (m_type m) =
         pre @ post @ [new_group m tags] \<and>
       send_queue (ingest self m) = data # send_queue self)"
    unfolding appendleft_def by blast
next
  show "\<exists>n. send_queue (fst (sender_cycle self)) = take n (send_queue self)"
    by (auto simp: sender_cycle_def drain_nil)
qed

theorem C4_open_groups_invariant_witness:
  "uniform_tags
     [(''OpenMotics'',
       [(''energy'',
         [(''power'', \<lparr>def_tags = [''device'', ''id'']\<rparr>),
          (''voltage'', \<lparr>def_tags = [''device'', ''id'']\<rparr>)])])]
     (\<lambda>s t. [''device'', ''id'']) \<and>
   bucket (foldl ingest
       (load_definitions
          [(''OpenMotics'',
            [(''energy'',
              [(''power'', \<lparr>def_tags = [''device'', ''id'']\<rparr>),
               (''voltage'', \<lparr>def_tags = [''device'', ''id'']\<rparr>)])])]
          (init ''http://influx:8086'' ''openmotics'' 10))
       [example_metric ''power'' 1 (PInt 1234),
        (example_metric ''power'' 1 (PInt 800))
          \<lparr>m_extra := [(''device'', PStr ''ID2''), (''id'', PInt 1)]\<rparr>,
        example_metric ''voltage'' 1 (PInt 230),
        example_metric ''power'' 2 (PInt 1250)]) ''openmotics'' ''energy'' =
     [\<lparr>grp_timestamp = 1000000000,
       grp_tags = [(''type'', PStr ''openmotics''), (''device'', PStr ''ID2''), (''id'', PInt 1)],
       grp_fields = [(''power'', PStr ''800i'')]\<rparr>,
      \<lparr>grp_timestamp = 2000000000,
       grp_tags = [(''type'', PStr ''openmotics''), (''device'', PStr ''ID1''), (''id'', PInt 0)],
       grp_fields = [(''power'', PStr ''1250i'')]\<rparr>] \<and>
   distinct (map grp_tags (bucket (foldl ingest
       (load_definitions
          [(''OpenMotics'',
            [(''energy'',
              [(''power'', \<lparr>def_tags = [''device'', ''id'']\<rparr>),
               (''voltage'', \<lparr>def_tags = [''device'', ''id'']\<rparr>)])])]
          (init ''http://influx:8086'' ''openmotics'' 10))
       [example_metric ''power'' 1 (PInt 1234),
        (example_metric ''power'' 1 (PInt 800))
          \<lparr>m_extra := [(''device'', PStr ''ID2''), (''id'', PInt 1)]\<rparr>,
        example_metric ''voltage'' 1 (PInt 230),
        example_metric ''power'' 2 (PInt 1250)]) ''openmotics'' ''energy''))"
proof -
  let ?defs = "[(''OpenMotics'',
       [(''energy'',
         [(''power'', \<lparr>def_tags = [''device'', ''id'']\<rparr>),
          (''voltage'', \<lparr>def_tags = [''device'', ''id'']\<rparr>)])])]"
  let ?L = "\<lambda>(s::string) (t::string). [''device'', ''id'']"
  let ?s0 = "load_definitions ?defs (init ''http://influx:8086'' ''openmotics'' 10)"
  let ?ms = "[example_metric ''power'' 1 (PInt 1234),
        (example_metric ''power'' 1 (PInt 800))
          \<lparr>m_extra := [(''device'', PStr ''ID2''), (''id'', PInt 1)]\<rparr>,
        example_metric ''voltage'' 1 (PInt 230),
        example_metric ''power'' 2 (PInt 1250)]"
  have u: "uniform_tags ?defs ?L" by (simp add: uniform_tags_def)
  have d: "definitions ?s0 = None \<or> definitions ?s0 = Some ?defs"
    by (simp add: load_definitions_def init_def)
  have i: "\<forall>s t. one_per_identity (?L s t) (bucket ?s0 s t)"
    by (simp add: bucket_def by_type_of_def load_definitions_def init_def)
  from C4_open_groups_invariant[of ?defs ?L ?s0 ?ms, THEN conjunct1] u d i
  have "distinct (map grp_tags (bucket (foldl ingest ?s0 ?ms) ''openmotics'' ''energy''))"
    by blast
  moreover have "bucket (foldl ingest ?s0 ?ms) ''openmotics'' ''energy'' =
     [\<lparr>grp_timestamp = 1000000000,
       grp_tags = [(''type'', PStr ''openmotics''), (''device'', PStr ''ID2''), (''id'', PInt 1)],
       grp_fields = [(''power'', PStr ''800i'')]\<rparr>,
      \<lparr>grp_timestamp = 2000000000,
       grp_tags = [(''type'', PStr ''openmotics''), (''device'', PStr ''ID1''), (''id'', PInt 0)],
       grp_fields = [(''power'', PStr ''1250i'')]\<rparr>]"
    by code_simp
  ultimately show ?thesis using u by blast
qed

end
